theory Spec2Isabelle
  imports Main "HOL-Library.Sublist"
begin

section \<open>Python strings\<close>

text \<open>
  A Python \<open>str\<close> is a sequence of Unicode code points; \<open>len\<close>, \<open>in\<close>, \<open>split\<close> and
  \<open>strip\<close> all work on code points. A string is therefore a list of code points, each a
  natural number. ASCII literals are written through \<open>ascii\<close>; the Japanese characters the
  scraper looks for are named constants holding their code point.
\<close>

type_synonym codepoint = nat
type_synonym ustring = "codepoint list"

definition ascii :: "string \<Rightarrow> ustring" where
  "ascii s = map of_char s"

abbreviation NEWLINE :: codepoint where "NEWLINE \<equiv> 10"         \<comment> \<open>\<open>\n\<close>\<close>
abbreviation SPACE :: codepoint where "SPACE \<equiv> 32"
abbreviation SLASH :: codepoint where "SLASH \<equiv> 47"             \<comment> \<open>\<open>/\<close>\<close>
abbreviation UNDERSCORE :: codepoint where "UNDERSCORE \<equiv> 95"
abbreviation VBAR :: codepoint where "VBAR \<equiv> 124"               \<comment> \<open>\<open>|\<close>\<close>
abbreviation MIDDLE_DOT :: codepoint where "MIDDLE_DOT \<equiv> 12539"     \<comment> \<open>U+30FB, katakana middle dot\<close>
abbreviation FULLWIDTH_SLASH :: codepoint where "FULLWIDTH_SLASH \<equiv> 65295"   \<comment> \<open>U+FF0F\<close>
abbreviation FULLWIDTH_VBAR :: codepoint where "FULLWIDTH_VBAR \<equiv> 65372"     \<comment> \<open>U+FF5C\<close>
abbreviation LENTICULAR_OPEN :: codepoint where "LENTICULAR_OPEN \<equiv> 12304"   \<comment> \<open>U+3010\<close>
abbreviation LENTICULAR_CLOSE :: codepoint where "LENTICULAR_CLOSE \<equiv> 12305" \<comment> \<open>U+3011\<close>
abbreviation FULLWIDTH_LBRACKET :: codepoint where "FULLWIDTH_LBRACKET \<equiv> 65339" \<comment> \<open>U+FF3B\<close>
abbreviation HIRAGANA_GA :: codepoint where "HIRAGANA_GA \<equiv> 12364"     \<comment> \<open>U+304C\<close>
abbreviation HIRAGANA_WO :: codepoint where "HIRAGANA_WO \<equiv> 12434"     \<comment> \<open>U+3092\<close>

text \<open>
  The grammar terms for "intransitive verb" (jidoushi, U+81EA U+52D5 U+8A5E) and
  "transitive verb" (tadoushi, U+4ED6 U+52D5 U+8A5E).
\<close>

definition JIDOUSHI :: ustring where "JIDOUSHI = [33258, 21205, 35422]"
definition TADOUSHI :: ustring where "TADOUSHI = [20182, 21205, 35422]"

text \<open>
  \<open>str.isspace\<close> for one code point: the code points CPython treats as whitespace, which
  are the ones \<open>str.strip()\<close> removes.
\<close>

definition py_isspace :: "codepoint \<Rightarrow> bool" where
  "py_isspace c \<longleftrightarrow>
     (9 \<le> c \<and> c \<le> 13) \<or> (28 \<le> c \<and> c \<le> 32) \<or> c = 133 \<or> c = 160 \<or> c = 5760 \<or>
     (8192 \<le> c \<and> c \<le> 8202) \<or> c = 8232 \<or> c = 8233 \<or> c = 8239 \<or> c = 8287 \<or> c = 12288"

definition py_strip :: "ustring \<Rightarrow> ustring" where
  "py_strip s = rev (dropWhile py_isspace (rev (dropWhile py_isspace s)))"

text \<open>\<open>sub in s\<close>: \<open>sub\<close> occurs in \<open>s\<close> as a contiguous run.\<close>

definition py_in :: "ustring \<Rightarrow> ustring \<Rightarrow> bool" where
  "py_in sub s = sublist sub s"

text \<open>
  \<open>s.split(sep)\<close> for a separator of one code point: the pieces between the occurrences of
  \<open>sep\<close>, empty pieces included; the result is never empty.
\<close>

fun py_split :: "codepoint \<Rightarrow> ustring \<Rightarrow> ustring list" where
  "py_split sep [] = [[]]"
| "py_split sep (x # xs) =
     (if x = sep then [] # py_split sep xs
      else (case py_split sep xs of
              p # ps \<Rightarrow> (x # p) # ps
            | [] \<Rightarrow> [[x]]))"

text \<open>\<open>sep.join(parts)\<close>.\<close>

fun py_join :: "ustring \<Rightarrow> ustring list \<Rightarrow> ustring" where
  "py_join sep [] = []"
| "py_join sep [p] = p"
| "py_join sep (p # q # ps) = p @ sep @ py_join sep (q # ps)"

text \<open>\<open>s.replace(" ", "")\<close>: every space is removed.\<close>

definition remove_spaces :: "ustring \<Rightarrow> ustring" where
  "remove_spaces s = filter (\<lambda>c. c \<noteq> SPACE) s"

section \<open>Title parsing (\<open>scraper.py\<close>, \<open>parse_verb_pair_title\<close>)\<close>

text \<open>
  \<open>re.split\<close> on the class of the two vertical bars, then \<open>[0]\<close>: the text before the
  first vertical bar, fullwidth (U+FF5C) or
  ASCII (the whole title when there is none).
\<close>

definition is_bar :: "codepoint \<Rightarrow> bool" where
  "is_bar c \<longleftrightarrow> c = FULLWIDTH_VBAR \<or> c = VBAR"

definition before_bar :: "ustring \<Rightarrow> ustring" where
  "before_bar title = takeWhile (\<lambda>c. \<not> is_bar c) title"

definition separators :: "codepoint list" where
  "separators = [MIDDLE_DOT, FULLWIDTH_SLASH, SLASH]"

text \<open>
  The loop \<open>for sep in [...]\<close>: the first separator that occurs in the title and splits it
  into exactly two parts decides; a separator that occurs but gives another number of
  parts is passed over and the next one is tried.
\<close>

fun try_separators :: "codepoint list \<Rightarrow> ustring \<Rightarrow> (ustring \<times> ustring) option" where
  "try_separators [] title = None"
| "try_separators (sep # seps) title =
     (if sep \<in> set title then
        (case py_split sep title of
           [a, b] \<Rightarrow> Some (py_strip a, py_strip b)
         | _ \<Rightarrow> try_separators seps title)
      else try_separators seps title)"

definition parse_verb_pair_title :: "ustring \<Rightarrow> (ustring \<times> ustring) option" where
  "parse_verb_pair_title title = try_separators separators (py_strip (before_bar title))"

section \<open>The verb-pair record\<close>

text \<open>
  The dictionary \<open>parse_article\<close> returns, with the two nested dictionaries and the image
  entries. \<open>reading\<close> is \<open>None\<close> when no reading was found.
\<close>

record verb_form =
  kanji :: ustring
  reading :: "ustring option"
  examples :: "ustring list"

record image_entry =
  img_filename :: ustring
  img_original_url :: ustring
  img_alt :: ustring

record verb_pair_record =
  vp_id :: ustring
  vp_title :: ustring
  vp_level :: ustring
  vp_intransitive :: verb_form
  vp_transitive :: verb_form
  vp_practice_questions :: "ustring list"
  vp_answers :: "ustring list"
  vp_images :: "image_entry list"
  vp_source_url :: ustring
  vp_attribution :: ustring

definition ATTRIBUTION :: ustring where
  "ATTRIBUTION = ascii ''Source: edewakaru.com ('' @
     [32117, 12391, 12431, 12363, 12427, 26085, 26412, 35486] @ ascii '')''"

section \<open>Example sentences (\<open>parse_article\<close>, the loop over the lines)\<close>

text \<open>
  The loop body for one line, after \<open>line.strip()\<close>: the \<open>if\<close>/\<open>elif\<close> pair for the
  intransitive side, then the pair for the transitive side. Blank lines are skipped.
\<close>

fun mine_examples ::
  "ustring \<Rightarrow> ustring \<Rightarrow> ustring list \<Rightarrow> ustring list \<times> ustring list
     \<Rightarrow> ustring list \<times> ustring list" where
  "mine_examples intr tr [] (ie, te) = (ie, te)"
| "mine_examples intr tr (raw # rest) (ie, te) =
     (let line = py_strip raw in
      if line = [] then mine_examples intr tr rest (ie, te)
      else
        let ie' =
              (if py_in [HIRAGANA_GA] line \<and> py_in intr line \<and> py_in JIDOUSHI line
                 then ie @ [line]
               else if py_in [HIRAGANA_GA] line \<and> py_in intr line \<and> length line < 100
                 then ie @ [line]
               else ie);
            te' =
              (if py_in [HIRAGANA_WO] line \<and> py_in tr line \<and> py_in TADOUSHI line
                 then te @ [line]
               else if py_in [HIRAGANA_WO] line \<and> py_in tr line \<and> length line < 100
                 then te @ [line]
               else te)
        in mine_examples intr tr rest (ie', te'))"

section \<open>Practice questions and answers (\<open>parse_article\<close>, the regular expressions)\<close>

text \<open>The fifteen circled numbers 1 to 15 (U+2460 to U+246E) the loops run over.\<close>

definition circled_numbers :: "codepoint list" where
  "circled_numbers =
     [9312, 9313, 9314, 9315, 9316, 9317, 9318, 9319, 9320, 9321, 9322, 9323, 9324, 9325, 9326]"

text \<open>
  The negated character class of both patterns: anything but a newline and the ten
  circled numbers 1 to 10 (U+2460 to U+2469) that the class lists.
\<close>

definition item_char :: "codepoint \<Rightarrow> bool" where
  "item_char c \<longleftrightarrow>
     c \<notin> set [NEWLINE, 9312, 9313, 9314, 9315, 9316, 9317, 9318, 9319, 9320, 9321]"

text \<open>
  \<open>re.findall(char + "[^...]+", text)\<close>: scanning from the left, a match starts at an
  occurrence of \<open>char\<close> that is followed by at least one character of the class, takes the
  longest run of such characters, and the scan goes on behind the match. An occurrence
  followed by no such character is no match and the scan goes on with the next character.
\<close>

function re_findall_item :: "codepoint \<Rightarrow> ustring \<Rightarrow> ustring list" where
  "re_findall_item c [] = []"
| "re_findall_item c (x # xs) =
     (if x = c \<and> takeWhile item_char xs \<noteq> []
        then (x # takeWhile item_char xs) # re_findall_item c (dropWhile item_char xs)
      else re_findall_item c xs)"
  by pat_completeness auto
termination
  by (relation "measure (\<lambda>(c, s). length s)")
     (auto simp: less_Suc_eq_le length_dropWhile_le)

text \<open>
  \<open>re.search(char + "([^...]+)", text)\<close> and \<open>group(1)\<close>: the run behind the first
  occurrence of \<open>char\<close> that is followed by at least one character of the class.
\<close>

fun re_search_item :: "codepoint \<Rightarrow> ustring \<Rightarrow> ustring option" where
  "re_search_item c [] = None"
| "re_search_item c (x # xs) =
     (if x = c \<and> takeWhile item_char xs \<noteq> [] then Some (takeWhile item_char xs)
      else re_search_item c xs)"

text \<open>
  The inner loop \<open>for m in matches\<close>: a match with U+3010 and no U+3011 gets a U+3011
  appended, and is
  kept, stripped, when it is longer than 5 code points.
\<close>

fun add_questions :: "ustring list \<Rightarrow> ustring list \<Rightarrow> ustring list" where
  "add_questions [] practice_questions = practice_questions"
| "add_questions (m # ms) practice_questions =
     (let m' = (if py_in [LENTICULAR_OPEN] m \<and> \<not> py_in [LENTICULAR_CLOSE] m
                  then m @ [LENTICULAR_CLOSE] else m)
      in add_questions ms
           (if length m' > 5 then practice_questions @ [py_strip m'] else practice_questions))"

text \<open>The outer loop \<open>for char in circled_numbers\<close>.\<close>

fun mine_questions :: "codepoint list \<Rightarrow> ustring \<Rightarrow> ustring list \<Rightarrow> ustring list" where
  "mine_questions [] text practice_questions = practice_questions"
| "mine_questions (c # cs) text practice_questions =
     mine_questions cs text (add_questions (re_findall_item c text) practice_questions)"

text \<open>The marker of the answer block: U+3010, kotae (U+7B54 U+3048), U+3011.\<close>

definition ANSWER_MARKER :: ustring where
  "ANSWER_MARKER = [12304, 31572, 12360, 12305]"

text \<open>The text behind the first occurrence of a marker, if it occurs.\<close>

fun after_first :: "ustring \<Rightarrow> ustring \<Rightarrow> ustring option" where
  "after_first marker [] = (if marker = [] then Some [] else None)"
| "after_first marker (x # xs) =
     (if prefix marker (x # xs) then Some (drop (length marker) (x # xs))
      else after_first marker xs)"

text \<open>
  The lazy \<open>.+?\<close> under \<open>re.DOTALL\<close>, from its second character on: it stops as soon as the
  lookahead for U+3010 or \<open>$\<close> holds, that is before a U+3010, at the end of the text, or
  before a
  newline that is the last character of the text (where \<open>$\<close> matches as well).
\<close>

fun lazy_until_bracket :: "ustring \<Rightarrow> ustring" where
  "lazy_until_bracket [] = []"
| "lazy_until_bracket (x # xs) =
     (if x = LENTICULAR_OPEN \<or> (x = NEWLINE \<and> xs = []) then []
      else x # lazy_until_bracket xs)"

text \<open>
  \<open>re.search\<close> for the marker, the lazy group \<open>(.+?)\<close> and the lookahead, under
  \<open>re.DOTALL\<close>, and \<open>group(1)\<close>. The group takes at
  least one character, whatever it is; with nothing behind the marker there is no match.
\<close>

definition answer_section :: "ustring \<Rightarrow> ustring option" where
  "answer_section text =
     (case after_first ANSWER_MARKER text of
        None \<Rightarrow> None
      | Some [] \<Rightarrow> None
      | Some (c # rest) \<Rightarrow> Some (c # lazy_until_bracket rest))"

text \<open>The loop over the circled numbers inside the answer block.\<close>

fun mine_answers :: "codepoint list \<Rightarrow> ustring \<Rightarrow> ustring list \<Rightarrow> ustring list" where
  "mine_answers [] answer_text answers = answers"
| "mine_answers (c # cs) answer_text answers =
     mine_answers cs answer_text
       (case re_search_item c answer_text of
          Some g \<Rightarrow> answers @ [py_strip g]
        | None \<Rightarrow> answers)"

definition extract_answers :: "ustring \<Rightarrow> ustring list" where
  "extract_answers text =
     (case answer_section text of
        None \<Rightarrow> []
      | Some answer_text \<Rightarrow> mine_answers circled_numbers answer_text [])"

section \<open>Readings (\<open>extract_readings\<close>)\<close>

text \<open>The class of hiragana U+3041 to U+3093 and katakana U+30A1 to U+30F3.\<close>

definition is_kana :: "codepoint \<Rightarrow> bool" where
  "is_kana c \<longleftrightarrow> (12353 \<le> c \<and> c \<le> 12435) \<or> (12449 \<le> c \<and> c \<le> 12531)"

text \<open>
  One pattern, \<open>verb\<close> then an opening bracket, a run of kana and a closing bracket, tried
  at the start of \<open>s\<close>. The kana run is the longest one: a shorter run is followed by a
  kana character, never by a closing bracket.
\<close>

definition reading_at ::
  "ustring \<Rightarrow> codepoint list \<Rightarrow> codepoint list \<Rightarrow> ustring \<Rightarrow> ustring option" where
  "reading_at verb opens closes s =
     (if prefix verb s then
        (case drop (length verb) s of
           [] \<Rightarrow> None
         | p # r \<Rightarrow>
             if p \<in> set opens \<and> takeWhile is_kana r \<noteq> [] then
               (case dropWhile is_kana r of
                  [] \<Rightarrow> None
                | q # _ \<Rightarrow> if q \<in> set closes then Some (takeWhile is_kana r) else None)
             else None)
      else None)"

fun re_search_reading ::
  "ustring \<Rightarrow> codepoint list \<Rightarrow> codepoint list \<Rightarrow> ustring \<Rightarrow> ustring option" where
  "re_search_reading verb opens closes [] = None"
| "re_search_reading verb opens closes (x # xs) =
     (case reading_at verb opens closes (x # xs) of
        Some k \<Rightarrow> Some k
      | None \<Rightarrow> re_search_reading verb opens closes xs)"

text \<open>
  The two patterns in turn: round brackets, fullwidth (U+FF08, U+FF09) or ASCII, then
  U+3010 and U+3011. The first
  argument is \<open>soup.get_text()\<close>.
\<close>

definition extract_readings :: "ustring \<Rightarrow> ustring \<Rightarrow> ustring option" where
  "extract_readings text verb =
     (case re_search_reading verb [65288, 40] [65289, 41] text of
        Some k \<Rightarrow> Some k
      | None \<Rightarrow> re_search_reading verb [LENTICULAR_OPEN] [LENTICULAR_CLOSE] text)"

section \<open>The outside world of the scraper\<close>

text \<open>
  What \<open>parse_article\<close> reads from a fetched page: the text of the title element
  (\<open>None\<close> when neither selector finds one), the text of the content element, the text of
  the whole page, and the \<open>img\<close> elements of the content as pairs of their \<open>src\<close> and
  \<open>alt\<close> attributes (\<open>""\<close> for a missing attribute).
\<close>

record page =
  page_title :: "ustring option"
  page_content_text :: ustring
  page_text :: ustring
  page_imgs :: "(ustring \<times> ustring) list"

text \<open>
  The environment the scraper runs in. \<open>web_page url\<close> is the page a request for \<open>url\<close>
  returns, \<open>None\<close> when \<open>requests\<close> raises (connection error, timeout, status that is not
  2xx); \<open>web_image\<close> likewise for the bytes of an image. \<open>md5_hex\<close> is
  \<open>hashlib.md5(s.encode()).hexdigest()\<close> and \<open>url_suffix\<close> is
  \<open>Path(urlparse(url).path).suffix\<close>, both library functions taken as they are. Writing a
  local file is taken to succeed.
\<close>

record env =
  web_page :: "ustring \<Rightarrow> page option"
  web_image :: "ustring \<Rightarrow> nat list option"
  md5_hex :: "ustring \<Rightarrow> ustring"
  url_suffix :: "ustring \<Rightarrow> ustring"

text \<open>
  The state the scraper changes: the files of the image directory and of the data
  directory, by file name, and the requests sent to the network so far.
\<close>

record world =
  images_dir :: "ustring \<rightharpoonup> nat list"
  data_dir :: "ustring \<rightharpoonup> verb_pair_record"
  requests :: "ustring list"

section \<open>Images (\<open>download_image\<close>)\<close>

definition image_filename :: "env \<Rightarrow> ustring \<Rightarrow> ustring \<Rightarrow> ustring" where
  "image_filename e img_url verb_pair_id =
     (let url_hash = take 8 (md5_hex e img_url);
          ext = (if url_suffix e img_url \<noteq> [] then url_suffix e img_url else ascii ''.jpg'')
      in verb_pair_id @ [UNDERSCORE] @ url_hash @ ext)"

text \<open>
  The existing file is returned before anything is requested. Otherwise the request
  is sent; a failure is caught and gives \<open>None\<close>, a success writes the file.
\<close>

definition download_image :: "env \<Rightarrow> ustring \<Rightarrow> ustring \<Rightarrow> world \<Rightarrow> ustring option \<times> world" where
  "download_image e img_url verb_pair_id w =
     (let filename = image_filename e img_url verb_pair_id in
      if images_dir w filename \<noteq> None then (Some filename, w)
      else
        let w1 = w\<lparr>requests := requests w @ [img_url]\<rparr> in
        (case web_image e img_url of
           None \<Rightarrow> (None, w1)
         | Some content \<Rightarrow>
             (Some filename, w1\<lparr>images_dir := (images_dir w1)(filename \<mapsto> content)\<rparr>)))"

text \<open>
  The loop over the first five \<open>img\<close> elements. The test is
  \<open>src and "resize.blogsys.jp" in src or "livedoor.blogimg.jp" in src\<close>.
\<close>

fun download_images ::
  "env \<Rightarrow> ustring \<Rightarrow> (ustring \<times> ustring) list \<Rightarrow> image_entry list \<Rightarrow> world
     \<Rightarrow> image_entry list \<times> world" where
  "download_images e verb_id [] images w = (images, w)"
| "download_images e verb_id ((src, alt) # rest) images w =
     (if (src \<noteq> [] \<and> py_in (ascii ''resize.blogsys.jp'') src)
         \<or> py_in (ascii ''livedoor.blogimg.jp'') src
      then
        (case download_image e src verb_id w of
           (Some filename, w') \<Rightarrow>
             download_images e verb_id rest
               (images @ [\<lparr>img_filename = filename, img_original_url = src, img_alt = alt\<rparr>]) w'
         | (None, w') \<Rightarrow> download_images e verb_id rest images w')
      else download_images e verb_id rest images w)"

section \<open>One article (\<open>parse_article\<close>)\<close>

text \<open>\<open>f"{intransitive}_{transitive}".replace(" ", "")\<close>.\<close>

definition make_verb_id :: "ustring \<Rightarrow> ustring \<Rightarrow> ustring" where
  "make_verb_id intransitive transitive =
     remove_spaces (intransitive @ [UNDERSCORE] @ transitive)"

text \<open>
  \<open>fetch_page\<close> sends the request and gives \<open>None\<close> when it fails. \<open>parse_article\<close> gives
  \<open>None\<close> for a page that could not be fetched, a page without a title element and a title
  that does not parse; otherwise the whole record.
\<close>

definition fetch_page :: "env \<Rightarrow> ustring \<Rightarrow> world \<Rightarrow> page option \<times> world" where
  "fetch_page e url w = (web_page e url, w\<lparr>requests := requests w @ [url]\<rparr>)"

definition parse_article ::
  "env \<Rightarrow> ustring \<Rightarrow> ustring \<Rightarrow> world \<Rightarrow> verb_pair_record option \<times> world" where
  "parse_article e url level w =
     (case fetch_page e url w of
        (None, w1) \<Rightarrow> (None, w1)
      | (Some soup, w1) \<Rightarrow>
          (case page_title soup of
             None \<Rightarrow> (None, w1)
           | Some title \<Rightarrow>
               (case parse_verb_pair_title title of
                  None \<Rightarrow> (None, w1)
                | Some (intransitive, transitive) \<Rightarrow>
                    let verb_id = make_verb_id intransitive transitive;
                        text = page_content_text soup;
                        (intransitive_examples, transitive_examples) =
                          mine_examples intransitive transitive (py_split NEWLINE text) ([], []);
                        practice_questions = mine_questions circled_numbers text [];
                        answers = extract_answers text;
                        (images, w2) =
                          download_images e verb_id (take 5 (page_imgs soup)) [] w1;
                        intransitive_reading = extract_readings (page_text soup) intransitive;
                        transitive_reading = extract_readings (page_text soup) transitive
                    in (Some \<lparr>vp_id = verb_id,
                              vp_title = title,
                              vp_level = level,
                              vp_intransitive =
                                \<lparr>kanji = intransitive, reading = intransitive_reading,
                                 examples = take 3 intransitive_examples\<rparr>,
                              vp_transitive =
                                \<lparr>kanji = transitive, reading = transitive_reading,
                                 examples = take 3 transitive_examples\<rparr>,
                              vp_practice_questions = take 10 practice_questions,
                              vp_answers = answers,
                              vp_images = images,
                              vp_source_url = url,
                              vp_attribution = ATTRIBUTION\<rparr>, w2))))"

section \<open>One level (\<open>scrape_level\<close>)\<close>

text \<open>
  The loop over the article URLs, which are the list the category pages gave: every
  record \<open>parse_article\<close> returns is appended to the results and written to the data
  directory under its id; an article that gave \<open>None\<close> is passed over.
\<close>

fun scrape_articles ::
  "env \<Rightarrow> ustring \<Rightarrow> ustring list \<Rightarrow> verb_pair_record list \<Rightarrow> world
     \<Rightarrow> verb_pair_record list \<times> world" where
  "scrape_articles e level [] results w = (results, w)"
| "scrape_articles e level (url # urls) results w =
     (case parse_article e url level w of
        (None, w') \<Rightarrow> scrape_articles e level urls results w'
      | (Some data, w') \<Rightarrow>
          scrape_articles e level urls (results @ [data])
            (w'\<lparr>data_dir := (data_dir w')(vp_id data @ ascii ''.json'' \<mapsto> data)\<rparr>))"

definition scrape_level ::
  "env \<Rightarrow> ustring \<Rightarrow> ustring list \<Rightarrow> world \<Rightarrow> verb_pair_record list \<times> world" where
  "scrape_level e level article_urls w = scrape_articles e level article_urls [] w"

section \<open>The flashcard store (\<open>anki_sync.py\<close>)\<close>

definition DECK_NAME :: ustring where
  "DECK_NAME = ascii ''Japanese::Verb Pairs''"

definition MODEL_NAME :: ustring where
  "MODEL_NAME = ascii ''Japanese Verb Pair''"

definition MODEL_FIELDS :: "ustring list" where
  "MODEL_FIELDS = map ascii
     [''VerbPairID'', ''IntransitiveKanji'', ''IntransitiveReading'', ''TransitiveKanji'',
      ''TransitiveReading'', ''Level'', ''Image'', ''PracticeQuestions'', ''Answers'',
      ''SourceURL'', ''Attribution'']"

text \<open>The \<open>fields\<close> dictionary of a note.\<close>

record note_fields =
  nf_VerbPairID :: ustring
  nf_IntransitiveKanji :: ustring
  nf_IntransitiveReading :: ustring
  nf_TransitiveKanji :: ustring
  nf_TransitiveReading :: ustring
  nf_Level :: ustring
  nf_Image :: ustring
  nf_PracticeQuestions :: ustring
  nf_Answers :: ustring
  nf_SourceURL :: ustring
  nf_Attribution :: ustring

text \<open>
  The requests the script sends, by action name, with the parameters that vary. The
  style sheet and the card templates of \<open>createModel\<close> are constants and are left out, and
  \<open>storeMediaFile\<close> carries the bytes of the file rather than their base64 text.
\<close>

datatype action =
    Version
  | DeckNames
  | CreateDeck ustring
  | ModelNames
  | CreateModel ustring "ustring list"
  | FindNotes ustring
  | StoreMediaFile ustring "nat list"
  | UpdateNoteFields nat note_fields
  | AddNote ustring ustring note_fields "ustring list"

text \<open>
  What comes back. \<open>URLError\<close> stands for \<open>urllib.error.URLError\<close>: the store cannot be
  reached. Otherwise the body has an \<open>error\<close> member (\<open>[]\<close> when it is null or missing)
  and a \<open>result\<close> member, which is given at the type each caller reads it at: a list of
  names (\<open>deckNames\<close>, \<open>modelNames\<close>), a list of note ids (\<open>findNotes\<close>), a file name
  (\<open>storeMediaFile\<close>, \<open>[]\<close> when null). The store is a function of the number of requests
  answered so far and of the request, so it may be reachable at one moment and
  unreachable at the next.
\<close>

record response_body =
  rb_error :: ustring
  rb_names :: "ustring list"
  rb_notes :: "nat list"
  rb_stored :: ustring

datatype response = URLError | Body response_body

type_synonym anki_connect = "nat \<Rightarrow> action \<Rightarrow> response"

text \<open>The two exceptions \<open>anki_request\<close> raises.\<close>

datatype exn = CannotConnect | AnkiConnectError ustring

text \<open>What the script prints.\<close>

datatype message =
    Connected
  | ErrorDiagnostic exn
  | CreatedDeck
  | DeckExists
  | CreatedModel
  | ModelExists
  | LevelFileNotFound
  | Syncing nat
  | Updated ustring
  | Added ustring
  | SyncComplete nat nat

record sync_state =
  sent :: "action list"
  console :: "message list"

type_synonym 'a io = "sync_state \<Rightarrow> (exn + 'a) \<times> sync_state"

definition say :: "message \<Rightarrow> sync_state \<Rightarrow> sync_state" where
  "say m s = s\<lparr>console := console s @ [m]\<rparr>"

text \<open>Sequencing: an exception of the first computation ends the second.\<close>

definition bind_io :: "'a io \<Rightarrow> ('a \<Rightarrow> 'b io) \<Rightarrow> 'b io" where
  "bind_io m f s = (case m s of (Inl e, s') \<Rightarrow> (Inl e, s') | (Inr a, s') \<Rightarrow> f a s')"

definition anki_request :: "anki_connect \<Rightarrow> action \<Rightarrow> response_body io" where
  "anki_request ac act s =
     (let s' = s\<lparr>sent := sent s @ [act]\<rparr> in
      case ac (length (sent s)) act of
        URLError \<Rightarrow> (Inl CannotConnect, s')
      | Body r \<Rightarrow>
          if rb_error r \<noteq> [] then (Inl (AnkiConnectError (rb_error r)), s')
          else (Inr r, s'))"

text \<open>
  \<open>check_anki_connection\<close> catches every exception of the version request, prints the
  diagnostic and returns \<open>False\<close>.
\<close>

definition check_anki_connection :: "anki_connect \<Rightarrow> sync_state \<Rightarrow> bool \<times> sync_state" where
  "check_anki_connection ac s =
     (case anki_request ac Version s of
        (Inr version, s') \<Rightarrow> (True, say Connected s')
      | (Inl e, s') \<Rightarrow> (False, say (ErrorDiagnostic e) s'))"

definition ensure_deck_exists :: "anki_connect \<Rightarrow> unit io" where
  "ensure_deck_exists ac =
     bind_io (anki_request ac DeckNames) (\<lambda>decks.
       if DECK_NAME \<notin> set (rb_names decks) then
         bind_io (anki_request ac (CreateDeck DECK_NAME)) (\<lambda>_ s. (Inr (), say CreatedDeck s))
       else (\<lambda>s. (Inr (), say DeckExists s)))"

definition ensure_model_exists :: "anki_connect \<Rightarrow> unit io" where
  "ensure_model_exists ac =
     bind_io (anki_request ac ModelNames) (\<lambda>models.
       if MODEL_NAME \<notin> set (rb_names models) then
         bind_io (anki_request ac (CreateModel MODEL_NAME MODEL_FIELDS))
           (\<lambda>_ s. (Inr (), say CreatedModel s))
       else (\<lambda>s. (Inr (), say ModelExists s)))"

text \<open>
  \<open>store_image\<close>: \<open>None\<close> when the file is not in the image directory, else the name the
  store reports, or the file's own name when the store reports none.
\<close>

definition store_image ::
  "anki_connect \<Rightarrow> (ustring \<rightharpoonup> nat list) \<Rightarrow> ustring \<Rightarrow> ustring option io" where
  "store_image ac imgs filename =
     (case imgs filename of
        None \<Rightarrow> (\<lambda>s. (Inr None, s))
      | Some data \<Rightarrow>
          bind_io (anki_request ac (StoreMediaFile filename data)) (\<lambda>r s.
            (Inr (Some (if rb_stored r \<noteq> [] then rb_stored r else filename)), s)))"

definition BR :: ustring where
  "BR = ascii ''<br>''"

definition has_choices :: "ustring \<Rightarrow> bool" where
  "has_choices q \<longleftrightarrow> py_in [FULLWIDTH_LBRACKET] q \<or> py_in [LENTICULAR_OPEN] q"

definition format_practice_questions :: "ustring list \<Rightarrow> ustring" where
  "format_practice_questions questions =
     (let filtered = filter has_choices questions;
          filtered = (if filtered = [] then take 5 questions else filtered)
      in py_join BR (take 5 filtered))"

definition format_answers :: "ustring list \<Rightarrow> ustring" where
  "format_answers answers = py_join BR (take 5 answers)"

text \<open>The \<open>fields\<close> dictionary \<open>add_or_update_note\<close> prepares.\<close>

definition note_fields_of :: "verb_pair_record \<Rightarrow> ustring \<Rightarrow> note_fields" where
  "note_fields_of verb_data image_field =
     \<lparr>nf_VerbPairID = vp_id verb_data,
      nf_IntransitiveKanji = kanji (vp_intransitive verb_data),
      nf_IntransitiveReading =
        (case reading (vp_intransitive verb_data) of Some r \<Rightarrow> r | None \<Rightarrow> []),
      nf_TransitiveKanji = kanji (vp_transitive verb_data),
      nf_TransitiveReading =
        (case reading (vp_transitive verb_data) of Some r \<Rightarrow> r | None \<Rightarrow> []),
      nf_Level = vp_level verb_data,
      nf_Image = image_field,
      nf_PracticeQuestions = format_practice_questions (vp_practice_questions verb_data),
      nf_Answers = format_answers (vp_answers verb_data),
      nf_SourceURL = vp_source_url verb_data,
      nf_Attribution = vp_attribution verb_data\<rparr>"

definition find_query :: "ustring \<Rightarrow> ustring" where
  "find_query verb_id =
     ascii ''\"deck:'' @ DECK_NAME @ ascii ''\" \"VerbPairID:'' @ verb_id @ ascii ''\"''"

text \<open>The image field: the first image of the record, when the store took it.\<close>

definition image_field_of :: "anki_connect \<Rightarrow> (ustring \<rightharpoonup> nat list) \<Rightarrow> verb_pair_record \<Rightarrow> ustring io" where
  "image_field_of ac imgs verb_data =
     (case vp_images verb_data of
        [] \<Rightarrow> (\<lambda>s. (Inr [], s))
      | first_image # _ \<Rightarrow>
          bind_io (store_image ac imgs (img_filename first_image)) (\<lambda>stored_name s.
            (Inr (case stored_name of
                    None \<Rightarrow> []
                  | Some n \<Rightarrow> if n \<noteq> [] then ascii ''<img src=\"'' @ n @ ascii ''\">'' else []),
             s)))"

text \<open>
  \<open>add_or_update_note\<close>: look the note up by the id, store the image, then update the
  first note found or add a new one. The result is whether the note is new. No
  exception of a request is caught here.
\<close>

definition add_or_update_note ::
  "anki_connect \<Rightarrow> (ustring \<rightharpoonup> nat list) \<Rightarrow> verb_pair_record \<Rightarrow> bool io" where
  "add_or_update_note ac imgs verb_data =
     bind_io (anki_request ac (FindNotes (find_query (vp_id verb_data)))) (\<lambda>existing.
     bind_io (image_field_of ac imgs verb_data) (\<lambda>image_field.
       let fields = note_fields_of verb_data image_field in
       (case rb_notes existing of
          note_id # _ \<Rightarrow>
            bind_io (anki_request ac (UpdateNoteFields note_id fields)) (\<lambda>_ s.
              (Inr False, say (Updated (vp_id verb_data)) s))
        | [] \<Rightarrow>
            bind_io (anki_request ac
                       (AddNote DECK_NAME MODEL_NAME fields
                          [ascii ''level:'' @ vp_level verb_data, ascii ''verb-pair'',
                           ascii ''edewakaru''])) (\<lambda>_ s.
              (Inr True, say (Added (vp_id verb_data)) s)))))"

text \<open>The loop over the records, counting the added and the updated notes.\<close>

fun sync_notes ::
  "anki_connect \<Rightarrow> (ustring \<rightharpoonup> nat list) \<Rightarrow> verb_pair_record list \<Rightarrow> nat \<Rightarrow> nat
     \<Rightarrow> (nat \<times> nat) io" where
  "sync_notes ac imgs [] added updated s = (Inr (added, updated), s)"
| "sync_notes ac imgs (verb_data # rest) added updated s =
     (case add_or_update_note ac imgs verb_data s of
        (Inl e, s') \<Rightarrow> (Inl e, s')
      | (Inr is_new, s') \<Rightarrow>
          if is_new then sync_notes ac imgs rest (added + 1) updated s'
          else sync_notes ac imgs rest added (updated + 1) s')"

text \<open>
  \<open>sync_all_verb_pairs\<close>, given the records of the JSON files in the sorted order of the
  file names: when the connection check fails the function returns at once; behind the
  check nothing catches an exception.
\<close>

definition sync_all_verb_pairs ::
  "anki_connect \<Rightarrow> (ustring \<rightharpoonup> nat list) \<Rightarrow> verb_pair_record list \<Rightarrow> unit io" where
  "sync_all_verb_pairs ac imgs json_files s =
     (case check_anki_connection ac s of
        (False, s1) \<Rightarrow> (Inr (), s1)
      | (True, s1) \<Rightarrow>
          bind_io (ensure_deck_exists ac) (\<lambda>_.
          bind_io (ensure_model_exists ac) (\<lambda>_.
          bind_io (\<lambda>s. sync_notes ac imgs json_files 0 0 (say (Syncing (length json_files)) s))
            (\<lambda>(added, updated) s. (Inr (), say (SyncComplete added updated) s)))) s1)"

text \<open>\<open>sync_level\<close>, given the records of the level file, \<open>None\<close> when there is no file.\<close>

definition sync_level ::
  "anki_connect \<Rightarrow> (ustring \<rightharpoonup> nat list) \<Rightarrow> verb_pair_record list option \<Rightarrow> unit io" where
  "sync_level ac imgs level_file s =
     (case check_anki_connection ac s of
        (False, s1) \<Rightarrow> (Inr (), s1)
      | (True, s1) \<Rightarrow>
          bind_io (ensure_deck_exists ac) (\<lambda>_.
          bind_io (ensure_model_exists ac) (\<lambda>_.
            (case level_file of
               None \<Rightarrow> (\<lambda>s. (Inr (), say LevelFileNotFound s))
             | Some data \<Rightarrow>
                 bind_io (\<lambda>s. sync_notes ac imgs data 0 0 (say (Syncing (length data)) s))
                   (\<lambda>(added, updated) s. (Inr (), say (SyncComplete added updated) s))))) s1)"

section \<open>The practice questions as the specification words them\<close>

text \<open>
  Reference definitions, written from the specification rather than from the code, to
  compare the code with. An item starts at an occurrence of the glyph and runs up to,
  and without, the next circled number of any of the fifteen kinds or the next newline;
  an occurrence with nothing behind it before that point gives no item.
\<close>

fun spec_item_runs :: "codepoint \<Rightarrow> ustring \<Rightarrow> ustring list" where
  "spec_item_runs g [] = []"
| "spec_item_runs g (x # xs) =
     (if x = g \<and> takeWhile (\<lambda>c. c \<noteq> NEWLINE \<and> c \<notin> set circled_numbers) xs \<noteq> []
        then [x # takeWhile (\<lambda>c. c \<noteq> NEWLINE \<and> c \<notin> set circled_numbers) xs]
      else [])
     @ spec_item_runs g xs"

text \<open>An opening bracket U+3010 without a closing U+3011 gets the closing one appended.\<close>

definition spec_repair :: "ustring \<Rightarrow> ustring" where
  "spec_repair item =
     (if LENTICULAR_OPEN \<in> set item \<and> LENTICULAR_CLOSE \<notin> set item
        then item @ [LENTICULAR_CLOSE] else item)"

text \<open>
  Glyph by glyph in the order of the fifteen circled numbers, and for one glyph in the
  order of the text: the repaired items longer than 5 code points, stripped; the first
  ten of them.
\<close>

definition spec_practice_questions :: "ustring \<Rightarrow> ustring list" where
  "spec_practice_questions text =
     take 10 (concat (map (\<lambda>g. map py_strip (filter (\<lambda>item. 5 < length item)
                                   (map spec_repair (spec_item_runs g text))))
                circled_numbers))"

section \<open>Requests that were answered\<close>

text \<open>
  Two ways to read the log of requests against the store: the request numbered \<open>k\<close>
  was answered without an error, or it made \<open>anki_request\<close> raise the exception \<open>x\<close>.
\<close>

definition answered :: "anki_connect \<Rightarrow> action list \<Rightarrow> nat \<Rightarrow> bool" where
  "answered ac log k =
     (case ac k (log ! k) of URLError \<Rightarrow> False | Body r \<Rightarrow> rb_error r = [])"

definition raised_at :: "anki_connect \<Rightarrow> action list \<Rightarrow> nat \<Rightarrow> exn \<Rightarrow> bool" where
  "raised_at ac log k x =
     (case ac k (log ! k) of
        URLError \<Rightarrow> x = CannotConnect
      | Body r \<Rightarrow> rb_error r \<noteq> [] \<and> x = AnkiConnectError (rb_error r))"

text \<open>
  What holds of a computation against the store that catches nothing: it only adds
  requests to the log; when it returns, every request it added was answered; when it
  raises, the last request it added raised that exception and the ones before were
  answered.
\<close>

definition io_spec :: "anki_connect \<Rightarrow> 'a io \<Rightarrow> bool" where
  "io_spec ac m \<longleftrightarrow>
     (\<forall>s. case m s of
        (Inr a, s') \<Rightarrow>
          (\<exists>new. sent s' = sent s @ new
             \<and> (\<forall>k. length (sent s) \<le> k \<and> k < length (sent s') \<longrightarrow> answered ac (sent s') k))
      | (Inl x, s') \<Rightarrow>
          (\<exists>new act. sent s' = sent s @ new @ [act]
             \<and> (\<forall>k. length (sent s) \<le> k \<and> k < length (sent s) + length new
                    \<longrightarrow> answered ac (sent s') k)
             \<and> raised_at ac (sent s') (length (sent s) + length new) x))"

text \<open>A computation against the store that sends requests of one kind only.\<close>

definition emits :: "(action \<Rightarrow> bool) \<Rightarrow> 'a io \<Rightarrow> bool" where
  "emits P m \<longleftrightarrow>
     (\<forall>s res s'. m s = (res, s') \<longrightarrow>
        (\<exists>new. sent s' = sent s @ new \<and> (\<forall>act \<in> set new. P act)))"

text \<open>The requests that carry the fields of a note of the record \<open>verb_data\<close>.\<close>

fun note_request :: "verb_pair_record \<Rightarrow> action \<Rightarrow> bool" where
  "note_request verb_data (FindNotes q) = True"
| "note_request verb_data (StoreMediaFile f d) = True"
| "note_request verb_data (UpdateNoteFields note_id flds) =
     (flds = note_fields_of verb_data (nf_Image flds))"
| "note_request verb_data (AddNote deck model flds tags) =
     (flds = note_fields_of verb_data (nf_Image flds))"
| "note_request verb_data act = False"

section \<open>Full records\<close>

text \<open>
  What is meant by a full record of an article: the page was fetched, it has a title,
  the title parses to a pair, and the record holds that pair, the id made from it, the
  title, the level and the URL, with the lists within their bounds.
\<close>

definition full_record ::
  "env \<Rightarrow> ustring \<Rightarrow> ustring \<Rightarrow> verb_pair_record \<Rightarrow> bool" where
  "full_record e url level r \<longleftrightarrow>
     (\<exists>soup title A B. web_page e url = Some soup \<and> page_title soup = Some title
        \<and> parse_verb_pair_title title = Some (A, B)
        \<and> kanji (vp_intransitive r) = A \<and> kanji (vp_transitive r) = B
        \<and> vp_id r = make_verb_id A B \<and> vp_title r = title \<and> vp_level r = level
        \<and> vp_source_url r = url
        \<and> length (examples (vp_intransitive r)) \<le> 3
        \<and> length (examples (vp_transitive r)) \<le> 3
        \<and> length (vp_practice_questions r) \<le> 10
        \<and> length (vp_images r) \<le> 5)"

section \<open>Concrete inputs\<close>

text \<open>
  A small world to evaluate the functions in: one page, served under the URL \<open>u\<close>, no
  image on the network, and a fixed digest. The functions above take any environment;
  this one serves the examples that follow the theorems.
\<close>

definition demo_page :: "ustring \<Rightarrow> ustring \<Rightarrow> page" where
  "demo_page title text =
     \<lparr>page_title = Some title, page_content_text = text, page_text = text, page_imgs = []\<rparr>"

definition demo_env :: "page \<Rightarrow> env" where
  "demo_env p =
     \<lparr>web_page = (\<lambda>url. if url = ascii ''u'' then Some p else None),
      web_image = (\<lambda>url. None),
      md5_hex = (\<lambda>s. ascii ''0123456789abcdef0123456789abcdef''),
      url_suffix = (\<lambda>url. [])\<rparr>"

definition empty_world :: world where
  "empty_world = \<lparr>images_dir = Map.empty, data_dir = Map.empty, requests = []\<rparr>"

text \<open>
  A record to synchronise, and three stores: one that answers every request and knows
  the deck and the note type but no note, one that cannot be reached at all, and one
  that answers the requests numbered below \<open>n\<close> only.
\<close>

definition demo_record :: "ustring list \<Rightarrow> ustring list \<Rightarrow> verb_pair_record" where
  "demo_record questions answers =
     \<lparr>vp_id = [38283, 12367, UNDERSCORE, 38283, 12369, 12427],
      vp_title = [38283, 12367, MIDDLE_DOT, 38283, 12369, 12427],
      vp_level = ascii ''beginner'',
      vp_intransitive = \<lparr>kanji = [38283, 12367], reading = None, examples = []\<rparr>,
      vp_transitive = \<lparr>kanji = [38283, 12369, 12427], reading = None, examples = []\<rparr>,
      vp_practice_questions = questions,
      vp_answers = answers,
      vp_images = [],
      vp_source_url = ascii ''u'',
      vp_attribution = ATTRIBUTION\<rparr>"

definition demo_body :: response_body where
  "demo_body =
     \<lparr>rb_error = [], rb_names = [DECK_NAME, MODEL_NAME], rb_notes = [], rb_stored = []\<rparr>"

definition anki_up :: anki_connect where
  "anki_up k act = Body demo_body"

definition anki_down :: anki_connect where
  "anki_down k act = URLError"

definition anki_up_until :: "nat \<Rightarrow> anki_connect" where
  "anki_up_until n k act = (if k < n then Body demo_body else URLError)"

definition fresh :: sync_state where
  "fresh = \<lparr>sent = [], console = []\<rparr>"

section \<open>Facts about the string operations\<close>

lemma py_in_single: "py_in [c] s \<longleftrightarrow> c \<in> set s"
  unfolding py_in_def
  by (induction s) (auto simp: sublist_Cons_right)

lemma py_split_not_Nil: "py_split sep s \<noteq> []"
  by (induction s) (auto split: list.splits)

lemma length_py_split: "length (py_split sep s) = Suc (count_list s sep)"
  by (induction s) (auto split: list.splits simp: py_split_not_Nil)

lemma py_split_no_sep: "sep \<notin> set s \<Longrightarrow> py_split sep s = [s]"
  by (induction s) auto

lemma py_split_one_sep:
  "sep \<notin> set a \<Longrightarrow> sep \<notin> set b \<Longrightarrow> py_split sep (a @ sep # b) = [a, b]"
  by (induction a) (auto simp: py_split_no_sep)

lemma count_list_one_split:
  assumes "count_list s x = 1"
  shows "\<exists>a b. s = a @ x # b \<and> x \<notin> set a \<and> x \<notin> set b"
proof -
  from assms have "count_list s x = Suc 0" by simp
  then obtain a b where "s = a @ x # b" "x \<notin> set a" "count_list b x = 0"
    using count_list_Suc_split_first [of s x 0] by blast
  then show ?thesis
    by (auto simp: count_list_0_iff)
qed

lemma py_strip_not_space:
  assumes "\<not> py_isspace c"
  shows "py_strip (a @ c # b) = dropWhile py_isspace a @ c # rev (dropWhile py_isspace (rev b))"
proof -
  have 1: "dropWhile py_isspace (a @ c # b) = dropWhile py_isspace a @ c # b"
    using assms by (induction a) auto
  have 2: "dropWhile py_isspace (rev b @ c # rev (dropWhile py_isspace a))
           = dropWhile py_isspace (rev b) @ c # rev (dropWhile py_isspace a)"
    using assms by (induction "rev b" arbitrary: b) (auto simp: dropWhile_append)
  show ?thesis
    unfolding py_strip_def 1 by (simp add: 2)
qed

lemma set_dropWhile_subset: "set (dropWhile P xs) \<subseteq> set xs"
  by (induction xs) auto

lemma set_py_strip_subset: "set (py_strip s) \<subseteq> set s"
proof -
  have "set (py_strip s) = set (dropWhile py_isspace (rev (dropWhile py_isspace s)))"
    by (simp add: py_strip_def)
  also have "\<dots> \<subseteq> set (rev (dropWhile py_isspace s))"
    by (rule set_dropWhile_subset)
  also have "\<dots> \<subseteq> set s"
    using set_dropWhile_subset [of py_isspace s] by simp
  finally show ?thesis .
qed

lemma count_list_dropWhile:
  "\<not> P x \<Longrightarrow> count_list (dropWhile P xs) x = count_list xs x"
  by (induction xs) auto

lemma count_list_py_strip:
  "\<not> py_isspace x \<Longrightarrow> count_list (py_strip s) x = count_list s x"
  by (simp add: py_strip_def count_list_dropWhile)

lemma py_split_two_iff:
  "py_split sep s = [a, b] \<longleftrightarrow> s = a @ sep # b \<and> sep \<notin> set a \<and> sep \<notin> set b"
proof
  assume h: "py_split sep s = [a, b]"
  then have "length (py_split sep s) = 2" by simp
  then have "count_list s sep = 1" by (simp add: length_py_split)
  from count_list_one_split [OF this]
  obtain a' b' where s: "s = a' @ sep # b'" and a': "sep \<notin> set a'" and b': "sep \<notin> set b'"
    by (elim exE conjE)
  have "py_split sep (a' @ sep # b') = [a', b']"
    using a' b' by (rule py_split_one_sep)
  with h have "a = a'" "b = b'" unfolding s by simp_all
  with s a' b' show "s = a @ sep # b \<and> sep \<notin> set a \<and> sep \<notin> set b" by simp
next
  assume "s = a @ sep # b \<and> sep \<notin> set a \<and> sep \<notin> set b"
  then show "py_split sep s = [a, b]" by (simp add: py_split_one_sep)
qed

lemma py_split_two_count: "(\<exists>a b. py_split sep s = [a, b]) \<longleftrightarrow> count_list s sep = 1"
proof
  assume "\<exists>a b. py_split sep s = [a, b]"
  then have "length (py_split sep s) = 2" by auto
  then show "count_list s sep = 1" by (simp add: length_py_split)
next
  assume "count_list s sep = 1"
  from count_list_one_split [OF this]
  obtain a b where "s = a @ sep # b" "sep \<notin> set a" "sep \<notin> set b"
    by (elim exE conjE)
  then have "py_split sep s = [a, b]" by (simp add: py_split_one_sep)
  then show "\<exists>a b. py_split sep s = [a, b]" by (intro exI)
qed

lemma try_separators_step:
  "try_separators (sep # seps) t =
     (if count_list t sep = 1
      then (case py_split sep t of [a, b] \<Rightarrow> Some (py_strip a, py_strip b) | _ \<Rightarrow> None)
      else try_separators seps t)"
proof (cases "count_list t sep = 1")
  case True
  then obtain a b where ab: "py_split sep t = [a, b]"
    using py_split_two_count [of sep t] by (elim iffE impE exE) simp_all
  from True have "sep \<in> set t"
    using count_list_0_iff [of t sep] by auto
  with ab True show ?thesis by simp
next
  case False
  then have "\<not> (\<exists>a b. py_split sep t = [a, b])"
    using py_split_two_count [of sep t] by simp
  then have "(case py_split sep t of [a, b] \<Rightarrow> Some (py_strip a, py_strip b)
              | _ \<Rightarrow> try_separators seps t) = try_separators seps t"
    by (auto split: list.splits)
  with False show ?thesis by simp
qed

lemma try_separators_None_iff:
  "try_separators seps t = None \<longleftrightarrow> (\<forall>sep \<in> set seps. count_list t sep \<noteq> 1)"
proof (induction seps)
  case Nil
  show ?case by simp
next
  case (Cons sep seps)
  show ?case
  proof (cases "count_list t sep = 1")
    case True
    then obtain a b where "py_split sep t = [a, b]"
      using py_split_two_count [of sep t] by (elim iffE impE exE) simp_all
    with True show ?thesis
      by (simp add: try_separators_step del: try_separators.simps)
  next
    case False
    with Cons show ?thesis
      by (simp add: try_separators_step del: try_separators.simps)
  qed
qed

lemma try_separators_Some:
  assumes "try_separators seps t = Some (x, y)"
  shows "\<exists>sep a b. sep \<in> set seps \<and> t = a @ sep # b \<and> sep \<notin> set a \<and> sep \<notin> set b
           \<and> x = py_strip a \<and> y = py_strip b"
  using assms
proof (induction seps)
  case Nil
  then show ?case by simp
next
  case (Cons sep seps)
  show ?case
  proof (cases "count_list t sep = 1")
    case True
    then obtain a b where ab: "py_split sep t = [a, b]"
      using py_split_two_count [of sep t] by (elim iffE impE exE) simp_all
    with True Cons.prems have xy: "x = py_strip a" "y = py_strip b"
      by (simp_all add: try_separators_step del: try_separators.simps)
    from ab have "t = a @ sep # b \<and> sep \<notin> set a \<and> sep \<notin> set b"
      by (simp add: py_split_two_iff)
    with xy have "sep \<in> set (sep # seps) \<and> t = a @ sep # b \<and> sep \<notin> set a \<and> sep \<notin> set b
           \<and> x = py_strip a \<and> y = py_strip b" by simp
    then show ?thesis by (intro exI)
  next
    case False
    with Cons.prems have "try_separators seps t = Some (x, y)"
      by (simp add: try_separators_step del: try_separators.simps)
    from Cons.IH [OF this] obtain s a b where
      "s \<in> set seps \<and> t = a @ s # b \<and> s \<notin> set a \<and> s \<notin> set b
           \<and> x = py_strip a \<and> y = py_strip b" by (elim exE)
    then have "s \<in> set (sep # seps) \<and> t = a @ s # b \<and> s \<notin> set a \<and> s \<notin> set b
           \<and> x = py_strip a \<and> y = py_strip b" by simp
    then show ?thesis by (intro exI)
  qed
qed

lemma dropWhile_rstrip_commute:
  "dropWhile P (rev (dropWhile P (rev s))) = rev (dropWhile P (rev (dropWhile P s)))"
proof (induction s)
  case Nil
  show ?case by simp
next
  case (Cons x s)
  show ?case
  proof (cases "P x")
    case True
    note Px = this
    show ?thesis
    proof (cases "dropWhile P (rev s) = []")
      case True
      then have all: "\<forall>y \<in> set s. P y"
        by (metis dropWhile_eq_Nil_conv set_rev)
      then have 1: "dropWhile P (x # s) = []" using Px by simp
      from all Px have "\<forall>y \<in> set (rev (x # s)). P y" by simp
      then have 2: "dropWhile P (rev (x # s)) = []"
        by (simp only: dropWhile_eq_Nil_conv)
      show ?thesis unfolding 1 2 by simp
    next
      case False
      then have "dropWhile P (rev s @ [x]) = dropWhile P (rev s) @ [x]"
        by (metis dropWhile_append1 dropWhile_eq_Nil_conv)
      then have "rev (dropWhile P (rev (x # s))) = x # rev (dropWhile P (rev s))"
        by simp
      with Px Cons show ?thesis by simp
    qed
  next
    case False
    then have "dropWhile P (rev s @ [x]) = dropWhile P (rev s) @ [x]"
      by (induction "rev s" arbitrary: s) (auto simp: dropWhile_append)
    with False show ?thesis by simp
  qed
qed

lemma py_strip_lstrip: "py_strip (dropWhile py_isspace s) = py_strip s"
  by (simp add: py_strip_def)

lemma py_strip_rstrip: "py_strip (rev (dropWhile py_isspace (rev s))) = py_strip s"
proof -
  have "py_strip (rev (dropWhile py_isspace (rev s)))
        = rev (dropWhile py_isspace (rev (dropWhile py_isspace (rev (dropWhile py_isspace (rev s))))))"
    by (simp add: py_strip_def)
  also have "\<dots> = rev (dropWhile py_isspace (rev (rev (dropWhile py_isspace (rev (dropWhile py_isspace s))))))"
    by (simp only: dropWhile_rstrip_commute)
  also have "\<dots> = py_strip s"
    by (simp add: py_strip_def)
  finally show ?thesis .
qed

lemma separator_not_space: "sep \<in> set separators \<Longrightarrow> \<not> py_isspace sep"
  by (auto simp: separators_def py_isspace_def)

lemma separator_not_bar: "sep \<in> set separators \<Longrightarrow> \<not> is_bar sep"
  by (auto simp: separators_def is_bar_def)

lemma before_bar_append:
  "\<forall>c \<in> set s. \<not> is_bar c \<Longrightarrow> is_bar bar \<Longrightarrow> before_bar (s @ bar # rest) = s"
  by (simp add: before_bar_def)

lemma before_bar_no_bar: "\<forall>c \<in> set s. \<not> is_bar c \<Longrightarrow> before_bar s = s"
  by (simp add: before_bar_def)

lemma try_separators_first:
  assumes "sep \<notin> set a" "sep \<notin> set b"
  shows "try_separators (sep # seps) (a @ sep # b) = Some (py_strip a, py_strip b)"
  using assms by (simp add: py_split_one_sep)

lemma try_separators_skip:
  assumes "s \<notin> set t"
  shows "try_separators (s # seps) t = try_separators seps t"
  using assms by simp

lemma parse_title_general:
  assumes sep: "sep \<in> set separators"
    and bar: "is_bar bar"
    and nobar: "\<forall>c \<in> set (A @ B). \<not> is_bar c"
    and nosep: "\<forall>s \<in> set (sep # takeWhile (\<lambda>s. s \<noteq> sep) separators). s \<notin> set (A @ B)"
  shows "parse_verb_pair_title (A @ [sep] @ B @ [bar] @ category) = Some (py_strip A, py_strip B)"
proof -
  define A1 where "A1 = dropWhile py_isspace A"
  define B1 where "B1 = rev (dropWhile py_isspace (rev B))"
  have "\<forall>c \<in> set (A @ sep # B). \<not> is_bar c"
    using nobar separator_not_bar [OF sep] by auto
  then have "before_bar ((A @ sep # B) @ bar # category) = A @ sep # B"
    using bar by (rule before_bar_append)
  then have bb: "before_bar (A @ [sep] @ B @ [bar] @ category) = A @ sep # B"
    by simp
  have st: "py_strip (A @ sep # B) = A1 @ sep # B1"
    unfolding A1_def B1_def using separator_not_space [OF sep] by (rule py_strip_not_space)
  have subA: "set A1 \<subseteq> set A"
    unfolding A1_def by (rule set_dropWhile_subset)
  have subB: "set B1 \<subseteq> set B"
    unfolding B1_def using set_dropWhile_subset [of py_isspace "rev B"] by simp
  have sA: "py_strip A1 = py_strip A"
    unfolding A1_def by (rule py_strip_lstrip)
  have sB: "py_strip B1 = py_strip B"
    unfolding B1_def by (rule py_strip_rstrip)
  have sepA: "sep \<notin> set A1" and sepB: "sep \<notin> set B1"
    using nosep subA subB by auto
  have "try_separators separators (A1 @ sep # B1) = Some (py_strip A1, py_strip B1)"
  proof -
    consider "sep = MIDDLE_DOT" | "sep = FULLWIDTH_SLASH" | "sep = SLASH"
      using sep by (auto simp: separators_def)
    then show ?thesis
    proof cases
      case 1
      with sepA sepB show ?thesis
        unfolding separators_def by (simp add: py_split_one_sep)
    next
      case 2
      with nosep subA subB have "MIDDLE_DOT \<notin> set (A1 @ sep # B1)"
        by (auto simp: separators_def)
      with 2 sepA sepB show ?thesis
        unfolding separators_def by (simp add: py_split_one_sep)
    next
      case 3
      with nosep subA subB have "MIDDLE_DOT \<notin> set (A1 @ sep # B1)"
        "FULLWIDTH_SLASH \<notin> set (A1 @ sep # B1)"
        by (auto simp: separators_def)
      with 3 sepA sepB show ?thesis
        unfolding separators_def by (simp add: py_split_one_sep)
    qed
  qed
  then show ?thesis
    unfolding parse_verb_pair_title_def bb st sA sB .
qed

lemma parse_title_None_iff:
  "parse_verb_pair_title title = None
     \<longleftrightarrow> (\<forall>sep \<in> set separators. count_list (before_bar title) sep \<noteq> 1)"
proof -
  have "\<And>sep. sep \<in> set separators \<Longrightarrow>
          count_list (py_strip (before_bar title)) sep = count_list (before_bar title) sep"
    by (rule count_list_py_strip) (rule separator_not_space)
  then show ?thesis
    unfolding parse_verb_pair_title_def try_separators_None_iff by simp
qed

lemma parse_article_no_page:
  "web_page e url = None \<Longrightarrow>
     parse_article e url level w = (None, w\<lparr>requests := requests w @ [url]\<rparr>)"
  by (simp add: parse_article_def fetch_page_def)

lemma parse_article_no_title:
  "web_page e url = Some soup \<Longrightarrow> page_title soup = None \<Longrightarrow>
     parse_article e url level w = (None, w\<lparr>requests := requests w @ [url]\<rparr>)"
  by (simp add: parse_article_def fetch_page_def)

lemma parse_article_no_pair:
  "web_page e url = Some soup \<Longrightarrow> page_title soup = Some title \<Longrightarrow>
   parse_verb_pair_title title = None \<Longrightarrow>
     parse_article e url level w = (None, w\<lparr>requests := requests w @ [url]\<rparr>)"
  by (simp add: parse_article_def fetch_page_def)

lemma parse_article_pair:
  assumes "web_page e url = Some soup" "page_title soup = Some title"
    and "parse_verb_pair_title title = Some (A, B)"
  shows "parse_article e url level w =
     (Some \<lparr>vp_id = make_verb_id A B,
            vp_title = title,
            vp_level = level,
            vp_intransitive =
              \<lparr>kanji = A, reading = extract_readings (page_text soup) A,
               examples = take 3 (fst (mine_examples A B
                            (py_split NEWLINE (page_content_text soup)) ([], [])))\<rparr>,
            vp_transitive =
              \<lparr>kanji = B, reading = extract_readings (page_text soup) B,
               examples = take 3 (snd (mine_examples A B
                            (py_split NEWLINE (page_content_text soup)) ([], [])))\<rparr>,
            vp_practice_questions =
              take 10 (mine_questions circled_numbers (page_content_text soup) []),
            vp_answers = extract_answers (page_content_text soup),
            vp_images = fst (download_images e (make_verb_id A B) (take 5 (page_imgs soup)) []
                               (w\<lparr>requests := requests w @ [url]\<rparr>)),
            vp_source_url = url,
            vp_attribution = ATTRIBUTION\<rparr>,
      snd (download_images e (make_verb_id A B) (take 5 (page_imgs soup)) []
             (w\<lparr>requests := requests w @ [url]\<rparr>)))"
  using assms
  by (simp add: parse_article_def fetch_page_def Let_def split: prod.splits)

lemma parse_article_Some:
  assumes "parse_article e url level w = (Some r, w')"
  shows "\<exists>soup title A B. web_page e url = Some soup \<and> page_title soup = Some title
           \<and> parse_verb_pair_title title = Some (A, B)"
proof (cases "web_page e url")
  case None
  with assms show ?thesis by (simp add: parse_article_no_page)
next
  case (Some soup)
  note soup = this
  show ?thesis
  proof (cases "page_title soup")
    case None
    with assms soup show ?thesis by (simp add: parse_article_no_title)
  next
    case (Some title)
    note title = this
    show ?thesis
    proof (cases "parse_verb_pair_title title")
      case None
      with assms soup title show ?thesis by (simp add: parse_article_no_pair)
    next
      case (Some p)
      then obtain A B where "parse_verb_pair_title title = Some (A, B)"
        by (cases p) simp
      with soup title show ?thesis by simp
    qed
  qed
qed

text \<open>
  C3. A title \<open>A sep B bar category\<close>, where \<open>sep\<close> is one of the three separators, \<open>bar\<close> is
  a vertical bar, \<open>A\<close> and \<open>B\<close> have no vertical bar, no occurrence of \<open>sep\<close> and of the
  separators tried before \<open>sep\<close>, and no surrounding white space, parses to exactly the
  pair \<open>(A, B)\<close>: the suffix behind the bar is dropped and the title is split at \<open>sep\<close>.
\<close>

theorem title_with_suffix_yields_pair:
  assumes "sep \<in> set separators"
    and "is_bar bar"
    and "\<forall>c \<in> set (A @ B). \<not> is_bar c"
    and "\<forall>s \<in> set (sep # takeWhile (\<lambda>s. s \<noteq> sep) separators). s \<notin> set (A @ B)"
    and "py_strip A = A" and "py_strip B = B"
  shows "parse_verb_pair_title (A @ [sep] @ B @ [bar] @ category) = Some (A, B)"
  using parse_title_general [OF assms(1-4), of category] assms(5,6) by simp

theorem title_with_suffix_yields_pair_witness:
  "FULLWIDTH_SLASH \<in> set separators \<and> is_bar FULLWIDTH_VBAR
   \<and> list_all (\<lambda>c. \<not> is_bar c) ([38283, 12367, SLASH] @ [38283, 12369, 12427])
   \<and> list_all (\<lambda>s. s \<notin> set ([38283, 12367, SLASH] @ [38283, 12369, 12427]))
        (FULLWIDTH_SLASH # takeWhile (\<lambda>s. s \<noteq> FULLWIDTH_SLASH) separators)
   \<and> py_strip [38283, 12367, SLASH] = [38283, 12367, SLASH]
   \<and> py_strip [38283, 12369, 12427] = [38283, 12369, 12427]
   \<and> parse_verb_pair_title
        ([38283, 12367, SLASH] @ [FULLWIDTH_SLASH] @ [38283, 12369, 12427] @ [FULLWIDTH_VBAR]
           @ [33258, 21205, 35422, MIDDLE_DOT, 20182, 21205, 35422])
      = Some ([38283, 12367, SLASH], [38283, 12369, 12427])"
proof -
  have h1: "FULLWIDTH_SLASH \<in> set separators"
    by (simp add: separators_def)
  have h2: "is_bar FULLWIDTH_VBAR"
    by (simp add: is_bar_def)
  have h3: "\<forall>c \<in> set ([38283, 12367, SLASH] @ [38283, 12369, 12427]). \<not> is_bar c"
    by (simp add: is_bar_def)
  have h4: "\<forall>s \<in> set (FULLWIDTH_SLASH # takeWhile (\<lambda>s. s \<noteq> FULLWIDTH_SLASH) separators).
          s \<notin> set ([38283, 12367, SLASH] @ [38283, 12369, 12427])"
    by (simp add: separators_def)
  have h5: "py_strip [38283, 12367, SLASH] = [38283, 12367, SLASH]"
    by (simp add: py_strip_def py_isspace_def)
  have h6: "py_strip [38283, 12369, 12427] = [38283, 12369, 12427]"
    by (simp add: py_strip_def py_isspace_def)
  note title_with_suffix_yields_pair [OF h1 h2 h3 h4 h5 h6,
      of "[33258, 21205, 35422, MIDDLE_DOT, 20182, 21205, 35422]"]
  with h1 h2 h3 h4 h5 h6 show ?thesis
    unfolding list_all_iff by (intro conjI)
qed

text \<open>
  C2, as the code has it. For a page that was fetched and has a title element, the
  article is not extractable exactly when none of the three separators occurs exactly
  once in the title before its first vertical bar. That covers a title without a
  separator and a title in which every separator that occurs occurs twice or more. A
  separator that occurs exactly once splits the title, whatever other separators occur
  and whether or not the two parts are empty.
\<close>

theorem title_not_extractable_iff:
  assumes "web_page e url = Some soup" and "page_title soup = Some title"
  shows "fst (parse_article e url level w) = None
     \<longleftrightarrow> (\<forall>sep \<in> set separators. count_list (before_bar title) sep \<noteq> 1)"
proof (cases "parse_verb_pair_title title")
  case None
  then have "fst (parse_article e url level w) = None"
    using assms by (simp add: parse_article_no_pair)
  with None show ?thesis
    by (simp add: parse_title_None_iff)
next
  case (Some p)
  then obtain A B where ab: "parse_verb_pair_title title = Some (A, B)"
    by (cases p) simp
  have "fst (parse_article e url level w) \<noteq> None"
    by (simp add: parse_article_pair [OF assms ab])
  moreover from ab have "\<not> (\<forall>sep \<in> set separators. count_list (before_bar title) sep \<noteq> 1)"
    using parse_title_None_iff [of title] by simp
  ultimately show ?thesis by blast
qed

theorem title_not_extractable_iff_witness:
  "web_page (demo_env (demo_page [38283, 12367, MIDDLE_DOT, 38283, MIDDLE_DOT, 12369] []))
       (ascii ''u'')
     = Some (demo_page [38283, 12367, MIDDLE_DOT, 38283, MIDDLE_DOT, 12369] [])
   \<and> page_title (demo_page [38283, 12367, MIDDLE_DOT, 38283, MIDDLE_DOT, 12369] [])
     = Some [38283, 12367, MIDDLE_DOT, 38283, MIDDLE_DOT, 12369]
   \<and> list_all
        (\<lambda>sep. count_list (before_bar [38283, 12367, MIDDLE_DOT, 38283, MIDDLE_DOT, 12369]) sep
                 \<noteq> 1)
        separators
   \<and> fst (parse_article
            (demo_env (demo_page [38283, 12367, MIDDLE_DOT, 38283, MIDDLE_DOT, 12369] []))
            (ascii ''u'') (ascii ''beginner'') empty_world) = None"
proof -
  let ?t = "[38283, 12367, MIDDLE_DOT, 38283, MIDDLE_DOT, 12369]"
  have h1: "web_page (demo_env (demo_page ?t [])) (ascii ''u'') = Some (demo_page ?t [])"
    by (simp add: demo_env_def)
  have h2: "page_title (demo_page ?t []) = Some ?t"
    by (simp add: demo_page_def)
  have h3: "\<forall>sep \<in> set separators. count_list (before_bar ?t) sep \<noteq> 1"
    by (simp add: separators_def before_bar_def is_bar_def)
  from title_not_extractable_iff [OF h1 h2, of "ascii ''beginner''" empty_world] h3
  have "fst (parse_article (demo_env (demo_page ?t [])) (ascii ''u'') (ascii ''beginner'')
          empty_world) = None"
    by (simp only: simp_thms)
  with h1 h2 h3 show ?thesis
    unfolding list_all_iff by (intro conjI)
qed

text \<open>
  C2 as stated fails twice. The title \<open>a, middle dot, b, slash, c\<close> has two of the
  recognized separators and is extracted, split at the middle dot. The title
  \<open>middle dot, b\<close> splits into an empty part and \<open>b\<close> and is extracted as well.
\<close>

theorem title_not_extractable_counterexample:
  "length (filter (\<lambda>c. c \<in> set separators) [97, MIDDLE_DOT, 98, SLASH, 99]) = 2
   \<and> map_option (\<lambda>r. (kanji (vp_intransitive r), kanji (vp_transitive r)))
       (fst (parse_article (demo_env (demo_page [97, MIDDLE_DOT, 98, SLASH, 99] []))
          (ascii ''u'') (ascii ''beginner'') empty_world))
     = Some ([97], [98, SLASH, 99])
   \<and> py_split MIDDLE_DOT [MIDDLE_DOT, 98] = [[], [98]]
   \<and> map_option (\<lambda>r. (kanji (vp_intransitive r), kanji (vp_transitive r)))
       (fst (parse_article (demo_env (demo_page [MIDDLE_DOT, 98] []))
          (ascii ''u'') (ascii ''beginner'') empty_world))
     = Some ([], [98])"
proof -
  have p1: "parse_verb_pair_title [97, MIDDLE_DOT, 98, SLASH, 99] = Some ([97], [98, SLASH, 99])"
    by (simp add: parse_verb_pair_title_def separators_def before_bar_def is_bar_def
        py_strip_def py_isspace_def)
  have p2: "parse_verb_pair_title [MIDDLE_DOT, 98] = Some ([], [98])"
    by (simp add: parse_verb_pair_title_def separators_def before_bar_def is_bar_def
        py_strip_def py_isspace_def)
  have w: "\<And>t. web_page (demo_env (demo_page t [])) (ascii ''u'') = Some (demo_page t [])"
    by (simp add: demo_env_def)
  have t: "\<And>t. page_title (demo_page t []) = Some t"
    by (simp add: demo_page_def)
  have 1: "length (filter (\<lambda>c. c \<in> set separators) [97, MIDDLE_DOT, 98, SLASH, 99]) = 2"
    by (simp add: separators_def)
  have 2: "map_option (\<lambda>r. (kanji (vp_intransitive r), kanji (vp_transitive r)))
       (fst (parse_article (demo_env (demo_page [97, MIDDLE_DOT, 98, SLASH, 99] []))
          (ascii ''u'') (ascii ''beginner'') empty_world))
     = Some ([97], [98, SLASH, 99])"
    by (simp add: parse_article_pair [OF w t p1])
  have 3: "py_split MIDDLE_DOT [MIDDLE_DOT, 98] = [[], [98]]"
    by simp
  have 4: "map_option (\<lambda>r. (kanji (vp_intransitive r), kanji (vp_transitive r)))
       (fst (parse_article (demo_env (demo_page [MIDDLE_DOT, 98] []))
          (ascii ''u'') (ascii ''beginner'') empty_world))
     = Some ([], [98])"
    by (simp add: parse_article_pair [OF w t p2])
  from 1 2 3 4 show ?thesis by (intro conjI)
qed

lemma py_in_Nil_right: "py_in sub [] \<longleftrightarrow> sub = []"
  by (simp add: py_in_def)

lemma mine_examples_filter:
  "mine_examples A B raw_lines (ie, te) =
     (ie @ filter (\<lambda>line. py_in [HIRAGANA_GA] line \<and> py_in A line
                      \<and> (py_in JIDOUSHI line \<or> length line < 100))
             (map py_strip raw_lines),
      te @ filter (\<lambda>line. py_in [HIRAGANA_WO] line \<and> py_in B line
                      \<and> (py_in TADOUSHI line \<or> length line < 100))
             (map py_strip raw_lines))"
proof (induction raw_lines arbitrary: ie te)
  case Nil
  show ?case by simp
next
  case (Cons raw rest)
  show ?case
  proof (cases "py_strip raw = []")
    case True
    then show ?thesis
      by (simp add: Cons.IH py_in_Nil_right)
  next
    case False
    then show ?thesis
      by (auto simp: Cons.IH Let_def)
  qed
qed

text \<open>
  C4. The intransitive examples of a record are the first three of the stripped
  lines of the content text that contain the particle ga (U+304C) and the intransitive
  verb and either contain the term jidoushi or are shorter than 100 code points, in the
  order of the text; the transitive examples likewise with the particle wo (U+3092),
  the transitive verb and the term tadoushi.
\<close>

theorem example_sentences:
  assumes "parse_article e url level w = (Some r, w')"
    and "web_page e url = Some soup"
  shows "examples (vp_intransitive r) =
           take 3 (filter (\<lambda>line. py_in [HIRAGANA_GA] line
                             \<and> py_in (kanji (vp_intransitive r)) line
                             \<and> (py_in JIDOUSHI line \<or> length line < 100))
                     (map py_strip (py_split NEWLINE (page_content_text soup))))
       \<and> examples (vp_transitive r) =
           take 3 (filter (\<lambda>line. py_in [HIRAGANA_WO] line
                             \<and> py_in (kanji (vp_transitive r)) line
                             \<and> (py_in TADOUSHI line \<or> length line < 100))
                     (map py_strip (py_split NEWLINE (page_content_text soup))))"
proof -
  from parse_article_Some [OF assms(1)] assms(2)
  obtain title A B where t: "page_title soup = Some title"
    and ab: "parse_verb_pair_title title = Some (A, B)"
    by auto
  have "parse_article e url level w = (Some r, w')" by (rule assms(1))
  then show ?thesis
    unfolding parse_article_pair [OF assms(2) t ab]
    by (auto simp: mine_examples_filter)
qed


theorem example_sentences_witness:
  "map_option (\<lambda>r. (examples (vp_intransitive r), examples (vp_transitive r)))
     (fst (parse_article
        (demo_env (demo_page [38283, 12367, MIDDLE_DOT, 38283, 12369, 12427]
           ([12489, 12450, 12364, 38283, 12367, NEWLINE, SPACE, 12489, 12450, 12434, 38283,
             12369, 12427, NEWLINE, NEWLINE, 31379, 12364, 38283, 12367])))
        (ascii ''u'') (ascii ''beginner'') empty_world))
   = Some ([[12489, 12450, 12364, 38283, 12367], [31379, 12364, 38283, 12367]],
           [[12489, 12450, 12434, 38283, 12369, 12427]])"
proof -
  let ?title = "[38283, 12367, MIDDLE_DOT, 38283, 12369, 12427]"
  let ?text = "[12489, 12450, 12364, 38283, 12367, NEWLINE, SPACE, 12489, 12450, 12434, 38283,
             12369, 12427, NEWLINE, NEWLINE, 31379, 12364, 38283, 12367]"
  let ?p = "demo_page ?title ?text"
  have h2: "web_page (demo_env ?p) (ascii ''u'') = Some ?p"
    by (simp add: demo_env_def)
  have t: "page_title ?p = Some ?title"
    by (simp add: demo_page_def)
  have ab: "parse_verb_pair_title ?title = Some ([38283, 12367], [38283, 12369, 12427])"
    by (simp add: parse_verb_pair_title_def separators_def before_bar_def is_bar_def
        py_strip_def py_isspace_def)
  obtain r w' where h1:
    "parse_article (demo_env ?p) (ascii ''u'') (ascii ''beginner'') empty_world = (Some r, w')"
    and ki: "kanji (vp_intransitive r) = [38283, 12367]"
    and kt: "kanji (vp_transitive r) = [38283, 12369, 12427]"
    by (simp add: parse_article_pair [OF h2 t ab])
  have lines: "map py_strip (py_split NEWLINE (page_content_text ?p)) =
      [[12489, 12450, 12364, 38283, 12367], [12489, 12450, 12434, 38283, 12369, 12427], [],
       [31379, 12364, 38283, 12367]]"
    by (simp add: demo_page_def py_strip_def py_isspace_def)
  note example_sentences [OF h1 h2, unfolded ki kt lines]
  then have "examples (vp_intransitive r) =
       [[12489, 12450, 12364, 38283, 12367], [31379, 12364, 38283, 12367]]
     \<and> examples (vp_transitive r) = [[12489, 12450, 12434, 38283, 12369, 12427]]"
    by (simp add: py_in_def sublist_Cons_right JIDOUSHI_def TADOUSHI_def)
  with h1 show ?thesis by simp
qed

lemma add_questions_eq:
  "add_questions ms acc =
     acc @ map py_strip (filter (\<lambda>item. 5 < length item) (map spec_repair ms))"
  by (induction ms arbitrary: acc) (simp_all add: Let_def spec_repair_def py_in_single)

lemma mine_questions_eq:
  "mine_questions cs body acc =
     acc @ concat (map (\<lambda>g. map py_strip (filter (\<lambda>item. 5 < length item)
                                (map spec_repair (re_findall_item g body)))) cs)"
  by (induction cs arbitrary: acc) (simp_all add: add_questions_eq)

lemma re_findall_item_absent: "c \<notin> set body \<Longrightarrow> re_findall_item c body = []"
  by (induction c body rule: re_findall_item.induct) auto

lemma spec_item_runs_absent: "g \<notin> set body \<Longrightarrow> spec_item_runs g body = []"
  by (induction body) auto

lemma spec_item_runs_skip:
  "g \<notin> set ys \<Longrightarrow> spec_item_runs g (ys @ zs) = spec_item_runs g zs"
  by (induction ys) auto

lemma item_char_circled:
  "c \<notin> {9322, 9323, 9324, 9325, 9326} \<Longrightarrow>
     item_char c \<longleftrightarrow> c \<noteq> NEWLINE \<and> c \<notin> set circled_numbers"
  by (auto simp: item_char_def circled_numbers_def)

lemma takeWhile_item_char:
  assumes "set xs \<inter> {9322, 9323, 9324, 9325, 9326} = {}"
  shows "takeWhile item_char xs = takeWhile (\<lambda>c. c \<noteq> NEWLINE \<and> c \<notin> set circled_numbers) xs"
proof (rule takeWhile_cong)
  show "xs = xs" by simp
next
  fix x assume "x \<in> set xs"
  with assms have "x \<notin> {9322, 9323, 9324, 9325, 9326}" by blast
  then show "item_char x = (x \<noteq> NEWLINE \<and> x \<notin> set circled_numbers)"
    by (rule item_char_circled)
qed

lemma re_findall_item_spec:
  assumes "\<not> item_char g"
    and "set body \<inter> {9322, 9323, 9324, 9325, 9326} = {}"
  shows "re_findall_item g body = spec_item_runs g body"
  using assms
proof (induction g body rule: re_findall_item.induct)
  case (1 c)
  show ?case by simp
next
  case (2 c x xs)
  from "2.prems"(2) have xs: "set xs \<inter> {9322, 9323, 9324, 9325, 9326} = {}"
    by auto
  have tw: "takeWhile item_char xs
            = takeWhile (\<lambda>c. c \<noteq> NEWLINE \<and> c \<notin> set circled_numbers) xs"
    using xs by (rule takeWhile_item_char)
  show ?case
  proof (cases "x = c \<and> takeWhile item_char xs \<noteq> []")
    case True
    have "set (dropWhile item_char xs) \<subseteq> set xs"
      by (rule set_dropWhile_subset)
    with xs have d: "set (dropWhile item_char xs) \<inter> {9322, 9323, 9324, 9325, 9326} = {}"
      by blast
    have ih: "re_findall_item c (dropWhile item_char xs)
              = spec_item_runs c (dropWhile item_char xs)"
      using "2.IH"(1) [OF True "2.prems"(1) d] .
    have "c \<notin> set (takeWhile item_char xs)"
      using "2.prems"(1) by (auto dest: set_takeWhileD)
    then have "spec_item_runs c (takeWhile item_char xs @ dropWhile item_char xs)
               = spec_item_runs c (dropWhile item_char xs)"
      by (rule spec_item_runs_skip)
    then have skip: "spec_item_runs c (dropWhile item_char xs) = spec_item_runs c xs"
      by simp
    from True have "re_findall_item c (x # xs)
        = (x # takeWhile item_char xs) # re_findall_item c (dropWhile item_char xs)"
      by simp
    also have "\<dots> = (x # takeWhile item_char xs) # spec_item_runs c xs"
      by (simp only: ih skip)
    also have "\<dots> = spec_item_runs c (x # xs)"
      using True by (simp add: tw [symmetric])
    finally show ?thesis .
  next
    case False
    have ih: "re_findall_item c xs = spec_item_runs c xs"
      using "2.IH"(2) [OF False "2.prems"(1) xs] .
    from False have "re_findall_item c (x # xs) = re_findall_item c xs"
      by auto
    also have "\<dots> = spec_item_runs c (x # xs)"
      using False by (auto simp: ih tw [symmetric])
    finally show ?thesis .
  qed
qed

lemma re_findall_item_circled:
  assumes "g \<in> set circled_numbers"
    and "set body \<inter> {9322, 9323, 9324, 9325, 9326} = {}"
  shows "re_findall_item g body = spec_item_runs g body"
proof (cases "item_char g")
  case False
  then show ?thesis using assms(2) by (rule re_findall_item_spec)
next
  case True
  with assms(1) have "g \<in> {9322, 9323, 9324, 9325, 9326}"
    by (auto simp: item_char_def circled_numbers_def)
  with assms(2) have "g \<notin> set body" by blast
  then show ?thesis
    by (simp add: re_findall_item_absent spec_item_runs_absent)
qed

lemma mine_questions_spec:
  assumes "set body \<inter> {9322, 9323, 9324, 9325, 9326} = {}"
  shows "take 10 (mine_questions circled_numbers body []) = spec_practice_questions body"
proof -
  have "map (\<lambda>g. map py_strip (filter (\<lambda>item. 5 < length item)
                                (map spec_repair (re_findall_item g body)))) circled_numbers
      = map (\<lambda>g. map py_strip (filter (\<lambda>item. 5 < length item)
                                (map spec_repair (spec_item_runs g body)))) circled_numbers"
    by (rule map_cong) (simp_all add: re_findall_item_circled [OF _ assms])
  then show ?thesis
    by (simp only: mine_questions_eq spec_practice_questions_def append_Nil)
qed

text \<open>
  C5, as the code has it, for a content text in which the circled numbers 11 to 15
  (U+246A to U+246E) do not occur. The practice questions of the record are the
  reference list: for each circled number in turn, and for each of its occurrences in
  the order of the text, the run from the glyph up to the next circled number or the
  next newline, when something stands behind the glyph; a closing bracket is appended to
  an item that has an opening one only; items of 5 code points or fewer are left out, the
  others stripped; the first ten are kept.
\<close>

theorem practice_questions_as_specified:
  assumes "parse_article e url level w = (Some r, w')"
    and "web_page e url = Some soup"
    and "set (page_content_text soup) \<inter> {9322, 9323, 9324, 9325, 9326} = {}"
  shows "vp_practice_questions r = spec_practice_questions (page_content_text soup)"
proof -
  from parse_article_Some [OF assms(1)] assms(2)
  obtain title A B where t: "page_title soup = Some title"
    and ab: "parse_verb_pair_title title = Some (A, B)"
    by auto
  have "vp_practice_questions r
        = take 10 (mine_questions circled_numbers (page_content_text soup) [])"
    using assms(1) unfolding parse_article_pair [OF assms(2) t ab] by auto
  then show ?thesis
    by (simp only: mine_questions_spec [OF assms(3)])
qed

theorem practice_questions_as_specified_witness:
  "map_option vp_practice_questions
     (fst (parse_article
        (demo_env (demo_page [38283, 12367, MIDDLE_DOT, 38283, 12369, 12427]
           [9312, LENTICULAR_OPEN, 12354, 44, 12356, 97, 9313, 98, 99, 100, 101, 102, 103,
            NEWLINE, 9314, 120]))
        (ascii ''u'') (ascii ''beginner'') empty_world))
   = Some [[9312, LENTICULAR_OPEN, 12354, 44, 12356, 97, LENTICULAR_CLOSE],
           [9313, 98, 99, 100, 101, 102, 103]]"
proof -
  let ?title = "[38283, 12367, MIDDLE_DOT, 38283, 12369, 12427]"
  let ?body = "[9312, LENTICULAR_OPEN, 12354, 44, 12356, 97, 9313, 98, 99, 100, 101, 102, 103,
            NEWLINE, 9314, 120]"
  let ?p = "demo_page ?title ?body"
  have h2: "web_page (demo_env ?p) (ascii ''u'') = Some ?p"
    by (simp add: demo_env_def)
  have t: "page_title ?p = Some ?title"
    by (simp add: demo_page_def)
  have c: "page_content_text ?p = ?body"
    by (simp add: demo_page_def)
  have ab: "parse_verb_pair_title ?title = Some ([38283, 12367], [38283, 12369, 12427])"
    by (simp add: parse_verb_pair_title_def separators_def before_bar_def is_bar_def
        py_strip_def py_isspace_def)
  obtain r w' where h1:
    "parse_article (demo_env ?p) (ascii ''u'') (ascii ''beginner'') empty_world = (Some r, w')"
    by (simp add: parse_article_pair [OF h2 t ab])
  have h3: "set (page_content_text ?p) \<inter> {9322, 9323, 9324, 9325, 9326} = {}"
    unfolding c by simp
  have ev: "spec_practice_questions ?body
      = [[9312, LENTICULAR_OPEN, 12354, 44, 12356, 97, LENTICULAR_CLOSE],
         [9313, 98, 99, 100, 101, 102, 103]]"
    by (simp add: spec_practice_questions_def circled_numbers_def spec_repair_def
        py_strip_def py_isspace_def)
  from practice_questions_as_specified [OF h1 h2 h3]
  have "vp_practice_questions r
      = [[9312, LENTICULAR_OPEN, 12354, 44, 12356, 97, LENTICULAR_CLOSE],
         [9313, 98, 99, 100, 101, 102, 103]]"
    unfolding c ev .
  with h1 show ?thesis by simp
qed

text \<open>
  C5 as stated fails: in the text \<open>circled 1, abcdef, newline, ghijkl\<close> no second circled
  number follows, and the item ends at the newline.
\<close>

theorem practice_questions_counterexample:
  "filter (\<lambda>c. c \<in> set circled_numbers)
     [9312, 97, 98, 99, 100, 101, 102, NEWLINE, 103, 104, 105, 106, 107, 108] = [9312]
   \<and> map_option vp_practice_questions
     (fst (parse_article
        (demo_env (demo_page [38283, 12367, MIDDLE_DOT, 38283, 12369, 12427]
           [9312, 97, 98, 99, 100, 101, 102, NEWLINE, 103, 104, 105, 106, 107, 108]))
        (ascii ''u'') (ascii ''beginner'') empty_world))
   = Some [[9312, 97, 98, 99, 100, 101, 102]]"
proof -
  let ?title = "[38283, 12367, MIDDLE_DOT, 38283, 12369, 12427]"
  let ?body = "[9312, 97, 98, 99, 100, 101, 102, NEWLINE, 103, 104, 105, 106, 107, 108]"
  let ?p = "demo_page ?title ?body"
  have h2: "web_page (demo_env ?p) (ascii ''u'') = Some ?p"
    by (simp add: demo_env_def)
  have t: "page_title ?p = Some ?title"
    by (simp add: demo_page_def)
  have c: "page_content_text ?p = ?body"
    by (simp add: demo_page_def)
  have ab: "parse_verb_pair_title ?title = Some ([38283, 12367], [38283, 12369, 12427])"
    by (simp add: parse_verb_pair_title_def separators_def before_bar_def is_bar_def
        py_strip_def py_isspace_def)
  have ev: "take 10 (mine_questions circled_numbers ?body [])
      = [[9312, 97, 98, 99, 100, 101, 102]]"
    by (simp add: circled_numbers_def item_char_def py_in_single py_strip_def py_isspace_def
        Let_def)
  have 1: "filter (\<lambda>c. c \<in> set circled_numbers) ?body = [9312]"
    by (simp add: circled_numbers_def)
  have 2: "map_option vp_practice_questions
     (fst (parse_article (demo_env ?p) (ascii ''u'') (ascii ''beginner'') empty_world))
   = Some [[9312, 97, 98, 99, 100, 101, 102]]"
    by (simp add: parse_article_pair [OF h2 t ab] c ev)
  from 1 2 show ?thesis by (intro conjI)
qed

text \<open>
  C6 at the answer block \<open>marker, circled 10, maru, circled 11, batsu, U+3010, tsugi,
  U+3011\<close>: the answer behind the circled 10 runs on through the circled 11, because
  the class of the pattern stops at the circled numbers 1 to 10 only.
\<close>

theorem answers_run_through_circled_eleven:
  "extract_answers
     [LENTICULAR_OPEN, 31572, 12360, LENTICULAR_CLOSE, 9321, 12414, 12427, 9322, 12400, 12388,
      LENTICULAR_OPEN, 27425, LENTICULAR_CLOSE]
   = [[12414, 12427, 9322, 12400, 12388], [12400, 12388]]"
  by (simp add: extract_answers_def answer_section_def ANSWER_MARKER_def circled_numbers_def
      item_char_def py_strip_def py_isspace_def)

lemma answers_of_the_documented_example:
  "extract_answers
     [LENTICULAR_OPEN, 31572, 12360, LENTICULAR_CLOSE, 9312, 12414, 12427, 9313, 12400, 12388,
      LENTICULAR_OPEN, 27425, LENTICULAR_CLOSE]
   = [[12414, 12427], [12400, 12388]]"
  by (simp add: extract_answers_def answer_section_def ANSWER_MARKER_def circled_numbers_def
      item_char_def py_strip_def py_isspace_def)

lemma questions_run_through_circled_eleven:
  "take 10 (mine_questions circled_numbers
     [9321, 97, 98, 99, 100, 101, 102, 9322, 103, 104, 105, 106, 107, 108] [])
   = [[9321, 97, 98, 99, 100, 101, 102, 9322, 103, 104, 105, 106, 107, 108],
      [9322, 103, 104, 105, 106, 107, 108]]"
  by (simp add: circled_numbers_def item_char_def py_in_single py_strip_def py_isspace_def
        Let_def)

lemma py_strip_eq_Nil_iff: "py_strip s = [] \<longleftrightarrow> (\<forall>c \<in> set s. py_isspace c)"
proof
  assume "py_strip s = []"
  then have "dropWhile py_isspace (rev (dropWhile py_isspace s)) = []"
    by (simp add: py_strip_def)
  then have "\<forall>c \<in> set (dropWhile py_isspace s). py_isspace c"
    by (simp only: dropWhile_eq_Nil_conv set_rev)
  moreover have "dropWhile py_isspace s = [] \<or> \<not> py_isspace (hd (dropWhile py_isspace s))"
    using hd_dropWhile [of py_isspace s] by blast
  ultimately have "dropWhile py_isspace s = []"
    by (cases "dropWhile py_isspace s") auto
  then show "\<forall>c \<in> set s. py_isspace c"
    by (simp only: dropWhile_eq_Nil_conv)
next
  assume "\<forall>c \<in> set s. py_isspace c"
  then have d: "dropWhile py_isspace s = []"
    by (simp only: dropWhile_eq_Nil_conv)
  show "py_strip s = []"
    unfolding py_strip_def d by simp
qed

lemma download_images_length:
  "length (fst (download_images e v imgs acc w)) \<le> length acc + length imgs"
proof (induction imgs arbitrary: acc w)
  case Nil
  show ?case by simp
next
  case (Cons img rest)
  obtain src alt where img: "img = (src, alt)" by (cases img)
  show ?case
  proof (cases "(src \<noteq> [] \<and> py_in (ascii ''resize.blogsys.jp'') src)
         \<or> py_in (ascii ''livedoor.blogimg.jp'') src")
    case False
    then have "download_images e v (img # rest) acc w = download_images e v rest acc w"
      unfolding img by auto
    with Cons.IH [of acc w] show ?thesis by simp
  next
    case True
    obtain res w1 where d: "download_image e src v w = (res, w1)"
      by (cases "download_image e src v w")
    show ?thesis
    proof (cases res)
      case None
      with True d have "download_images e v (img # rest) acc w = download_images e v rest acc w1"
        unfolding img by simp
      with Cons.IH [of acc w1] show ?thesis by simp
    next
      case (Some f)
      with True d have "download_images e v (img # rest) acc w
        = download_images e v rest
            (acc @ [\<lparr>img_filename = f, img_original_url = src, img_alt = alt\<rparr>]) w1"
        unfolding img by simp
      with Cons.IH [of "acc @ [\<lparr>img_filename = f, img_original_url = src, img_alt = alt\<rparr>]" w1]
      show ?thesis by simp
    qed
  qed
qed

lemma parse_title_parts:
  assumes "parse_verb_pair_title title = Some (A, B)"
  shows "\<exists>sep a b. sep \<in> set separators \<and> py_strip (before_bar title) = a @ sep # b
           \<and> A = py_strip a \<and> B = py_strip b"
proof -
  from assms have "try_separators separators (py_strip (before_bar title)) = Some (A, B)"
    by (simp add: parse_verb_pair_title_def)
  from try_separators_Some [OF this]
  obtain sep a b where "sep \<in> set separators \<and> py_strip (before_bar title) = a @ sep # b
      \<and> sep \<notin> set a \<and> sep \<notin> set b \<and> A = py_strip a \<and> B = py_strip b"
    by (elim exE)
  then have "sep \<in> set separators \<and> py_strip (before_bar title) = a @ sep # b
           \<and> A = py_strip a \<and> B = py_strip b" by simp
  then show ?thesis by (intro exI)
qed

lemma parse_article_full_record:
  assumes "parse_article e url level w = (Some r, w')"
  shows "full_record e url level r"
proof -
  from parse_article_Some [OF assms]
  obtain soup title A B where s: "web_page e url = Some soup"
    and t: "page_title soup = Some title"
    and ab: "parse_verb_pair_title title = Some (A, B)"
    by (elim exE conjE)
  have len: "length (fst (download_images e (make_verb_id A B) (take 5 (page_imgs soup)) []
                           (w\<lparr>requests := requests w @ [url]\<rparr>))) \<le> 5"
    using download_images_length [of e "make_verb_id A B" "take 5 (page_imgs soup)" "[]"
        "w\<lparr>requests := requests w @ [url]\<rparr>"]
    by simp
  from assms have "kanji (vp_intransitive r) = A \<and> kanji (vp_transitive r) = B
        \<and> vp_id r = make_verb_id A B \<and> vp_title r = title \<and> vp_level r = level
        \<and> vp_source_url r = url
        \<and> length (examples (vp_intransitive r)) \<le> 3
        \<and> length (examples (vp_transitive r)) \<le> 3
        \<and> length (vp_practice_questions r) \<le> 10
        \<and> length (vp_images r) \<le> 5"
    unfolding parse_article_pair [OF s t ab] using len by auto
  with s t ab show ?thesis
    unfolding full_record_def by blast
qed

lemma download_image_data_dir:
  "data_dir (snd (download_image e u v w)) = data_dir w"
  by (simp add: download_image_def Let_def split: option.splits)

lemma download_images_data_dir:
  "data_dir (snd (download_images e v imgs acc w)) = data_dir w"
proof (induction imgs arbitrary: acc w)
  case Nil
  show ?case by simp
next
  case (Cons img rest)
  obtain src alt where img: "img = (src, alt)" by (cases img)
  obtain res w1 where d: "download_image e src v w = (res, w1)"
    by (cases "download_image e src v w")
  have "data_dir w1 = data_dir w"
    using download_image_data_dir [of e src v w] d by simp
  then show ?case
    unfolding img using d Cons.IH by (cases res) auto
qed

lemma parse_article_data_dir:
  "data_dir (snd (parse_article e url level w)) = data_dir w"
proof (cases "web_page e url")
  case None
  then show ?thesis by (simp add: parse_article_no_page)
next
  case (Some soup)
  note s = this
  show ?thesis
  proof (cases "page_title soup")
    case None
    with s show ?thesis by (simp add: parse_article_no_title)
  next
    case (Some title)
    note t = this
    show ?thesis
    proof (cases "parse_verb_pair_title title")
      case None
      with s t show ?thesis by (simp add: parse_article_no_pair)
    next
      case (Some p)
      then obtain A B where ab: "parse_verb_pair_title title = Some (A, B)"
        by (cases p) simp
      show ?thesis
        by (simp add: parse_article_pair [OF s t ab] download_images_data_dir)
    qed
  qed
qed

lemma scrape_articles_invariant:
  assumes "scrape_articles e level urls acc w = (results, w')"
  shows "\<exists>new. results = acc @ new
            \<and> (\<forall>r \<in> set new. \<exists>url \<in> set urls. full_record e url level r)
            \<and> (\<forall>name r. data_dir w' name = Some r \<longrightarrow>
                   data_dir w name = Some r
                   \<or> (name = vp_id r @ ascii ''.json'' \<and> r \<in> set new))"
  using assms
proof (induction urls arbitrary: acc w)
  case Nil
  then show ?case by simp
next
  case (Cons url urls)
  obtain res w1 where p: "parse_article e url level w = (res, w1)"
    by (cases "parse_article e url level w")
  have dd: "data_dir w1 = data_dir w"
    using parse_article_data_dir [of e url level w] p by simp
  show ?case
  proof (cases res)
    case None
    with p Cons.prems have "scrape_articles e level urls acc w1 = (results, w')"
      by simp
    from Cons.IH [OF this] obtain new where new: "results = acc @ new"
      "\<forall>r \<in> set new. \<exists>u \<in> set urls. full_record e u level r"
      "\<forall>name r. data_dir w' name = Some r \<longrightarrow>
         data_dir w1 name = Some r \<or> (name = vp_id r @ ascii ''.json'' \<and> r \<in> set new)"
      by blast
    from new(2) have "\<forall>r \<in> set new. \<exists>u \<in> set (url # urls). full_record e u level r"
      by auto
    with new(1) new(3) show ?thesis
      unfolding dd by blast
  next
    case (Some d)
    define w2 where "w2 = w1\<lparr>data_dir := (data_dir w1)(vp_id d @ ascii ''.json'' \<mapsto> d)\<rparr>"
    from Some p Cons.prems
    have "scrape_articles e level urls (acc @ [d]) w2 = (results, w')"
      by (simp add: w2_def)
    from Cons.IH [OF this] obtain new where new: "results = (acc @ [d]) @ new"
      "\<forall>r \<in> set new. \<exists>u \<in> set urls. full_record e u level r"
      "\<forall>name r. data_dir w' name = Some r \<longrightarrow>
         data_dir w2 name = Some r \<or> (name = vp_id r @ ascii ''.json'' \<and> r \<in> set new)"
      by blast
    have fr: "full_record e url level d"
      using p Some by (auto intro: parse_article_full_record)
    have 1: "results = acc @ (d # new)"
      using new(1) by simp
    have 2: "\<forall>r \<in> set (d # new). \<exists>u \<in> set (url # urls). full_record e u level r"
      using new(2) fr by auto
    have w2: "\<And>name r. data_dir w2 name = Some r \<Longrightarrow>
        data_dir w name = Some r \<or> (name = vp_id r @ ascii ''.json'' \<and> r = d)"
      unfolding w2_def using dd by (auto split: if_splits)
    have 3: "\<forall>name r. data_dir w' name = Some r \<longrightarrow>
         data_dir w name = Some r \<or> (name = vp_id r @ ascii ''.json'' \<and> r \<in> set (d # new))"
    proof (intro allI impI)
      fix name r assume "data_dir w' name = Some r"
      with new(3) have "data_dir w2 name = Some r
          \<or> (name = vp_id r @ ascii ''.json'' \<and> r \<in> set new)"
        by blast
      then show "data_dir w name = Some r
          \<or> (name = vp_id r @ ascii ''.json'' \<and> r \<in> set (d # new))"
      proof
        assume "data_dir w2 name = Some r"
        from w2 [OF this] show ?thesis by auto
      next
        assume "name = vp_id r @ ascii ''.json'' \<and> r \<in> set new"
        then show ?thesis by simp
      qed
    qed
    from 1 2 3 show ?thesis by blast
  qed
qed

lemma scrape_level_single:
  assumes "parse_article e url level w = (Some r, w1)"
  shows "scrape_level e level [url] w =
           ([r], w1\<lparr>data_dir := (data_dir w1)(vp_id r @ ascii ''.json'' \<mapsto> r)\<rparr>)"
  using assms by (simp add: scrape_level_def)

text \<open>
  C7, as the code has it. A record that \<open>scrape_level\<close> writes to the data directory is
  one of its results, stored under its id, and is a full record of one of the articles:
  its two kanji fields are the two parts of the title around the separator, stripped.
  A kanji field is empty exactly when its part of the title holds white space only;
  nothing checks for that. And \<open>parse_article\<close> returns a full record or nothing.
\<close>

theorem persisted_records_are_full:
  assumes "scrape_level e level urls w = (results, w')"
    and "data_dir w' name = Some r"
    and "data_dir w name \<noteq> Some r"
  shows "name = vp_id r @ ascii ''.json'' \<and> r \<in> set results
       \<and> (\<exists>url \<in> set urls. full_record e url level r)
       \<and> (\<exists>a sep b. sep \<in> set separators
             \<and> py_strip (before_bar (vp_title r)) = a @ sep # b
             \<and> kanji (vp_intransitive r) = py_strip a
             \<and> kanji (vp_transitive r) = py_strip b
             \<and> (kanji (vp_intransitive r) = [] \<longleftrightarrow> (\<forall>c \<in> set a. py_isspace c))
             \<and> (kanji (vp_transitive r) = [] \<longleftrightarrow> (\<forall>c \<in> set b. py_isspace c)))
       \<and> (\<forall>u w0. case fst (parse_article e u level w0) of
                    None \<Rightarrow> True
                  | Some r0 \<Rightarrow> full_record e u level r0)"
proof -
  from assms(1) have "scrape_articles e level urls [] w = (results, w')"
    by (simp add: scrape_level_def)
  from scrape_articles_invariant [OF this]
  obtain new where new: "results = [] @ new"
    "\<forall>r \<in> set new. \<exists>url \<in> set urls. full_record e url level r"
    "\<forall>name r. data_dir w' name = Some r \<longrightarrow>
       data_dir w name = Some r \<or> (name = vp_id r @ ascii ''.json'' \<and> r \<in> set new)"
    by blast
  from new(3) assms(2,3) have nm: "name = vp_id r @ ascii ''.json''" and rn: "r \<in> set new"
    by blast+
  from rn new(1) have rr: "r \<in> set results" by simp
  from rn new(2) have fr: "\<exists>url \<in> set urls. full_record e url level r" by blast
  then obtain url where "full_record e url level r" by blast
  then obtain A B where ab: "parse_verb_pair_title (vp_title r) = Some (A, B)"
    and k: "kanji (vp_intransitive r) = A" "kanji (vp_transitive r) = B"
    unfolding full_record_def by blast
  from parse_title_parts [OF ab] obtain sep a b where
    p: "sep \<in> set separators" "py_strip (before_bar (vp_title r)) = a @ sep # b"
      "A = py_strip a" "B = py_strip b"
    by blast
  have parts: "\<exists>a sep b. sep \<in> set separators
             \<and> py_strip (before_bar (vp_title r)) = a @ sep # b
             \<and> kanji (vp_intransitive r) = py_strip a
             \<and> kanji (vp_transitive r) = py_strip b
             \<and> (kanji (vp_intransitive r) = [] \<longleftrightarrow> (\<forall>c \<in> set a. py_isspace c))
             \<and> (kanji (vp_transitive r) = [] \<longleftrightarrow> (\<forall>c \<in> set b. py_isspace c))"
  proof -
    have "sep \<in> set separators
             \<and> py_strip (before_bar (vp_title r)) = a @ sep # b
             \<and> kanji (vp_intransitive r) = py_strip a
             \<and> kanji (vp_transitive r) = py_strip b
             \<and> (kanji (vp_intransitive r) = [] \<longleftrightarrow> (\<forall>c \<in> set a. py_isspace c))
             \<and> (kanji (vp_transitive r) = [] \<longleftrightarrow> (\<forall>c \<in> set b. py_isspace c))"
      using p k by (simp add: py_strip_eq_Nil_iff)
    then show ?thesis by (intro exI)
  qed
  have all: "\<forall>u w0. case fst (parse_article e u level w0) of
                    None \<Rightarrow> True
                  | Some r0 \<Rightarrow> full_record e u level r0"
  proof (intro allI)
    fix u w0
    show "case fst (parse_article e u level w0) of
                    None \<Rightarrow> True
                  | Some r0 \<Rightarrow> full_record e u level r0"
    proof (cases "parse_article e u level w0")
      case (Pair res w1)
      then show ?thesis
        by (cases res) (auto intro: parse_article_full_record)
    qed
  qed
  from nm rr fr parts all show ?thesis by (intro conjI)
qed

theorem persisted_records_are_full_witness:
  "\<exists>r. data_dir (snd (scrape_level
            (demo_env (demo_page [38283, 12367, MIDDLE_DOT, 38283, 12369, 12427] []))
            (ascii ''beginner'') [ascii ''u''] empty_world))
         ([38283, 12367, UNDERSCORE, 38283, 12369, 12427] @ ascii ''.json'') = Some r
      \<and> data_dir empty_world ([38283, 12367, UNDERSCORE, 38283, 12369, 12427] @ ascii ''.json'')
          \<noteq> Some r
      \<and> r \<in> set (fst (scrape_level
            (demo_env (demo_page [38283, 12367, MIDDLE_DOT, 38283, 12369, 12427] []))
            (ascii ''beginner'') [ascii ''u''] empty_world))
      \<and> kanji (vp_intransitive r) = [38283, 12367]
      \<and> kanji (vp_transitive r) = [38283, 12369, 12427]"
proof -
  let ?title = "[38283, 12367, MIDDLE_DOT, 38283, 12369, 12427]"
  let ?p = "demo_page ?title []"
  let ?e = "demo_env ?p"
  let ?name = "[38283, 12367, UNDERSCORE, 38283, 12369, 12427] @ ascii ''.json''"
  have s: "web_page ?e (ascii ''u'') = Some ?p"
    by (simp add: demo_env_def)
  have t: "page_title ?p = Some ?title"
    by (simp add: demo_page_def)
  have ab: "parse_verb_pair_title ?title = Some ([38283, 12367], [38283, 12369, 12427])"
    by (simp add: parse_verb_pair_title_def separators_def before_bar_def is_bar_def
        py_strip_def py_isspace_def)
  obtain r w1 where pa: "parse_article ?e (ascii ''u'') (ascii ''beginner'') empty_world = (Some r, w1)"
    and id: "vp_id r = [38283, 12367, UNDERSCORE, 38283, 12369, 12427]"
    and ki: "kanji (vp_intransitive r) = [38283, 12367]"
    and kt: "kanji (vp_transitive r) = [38283, 12369, 12427]"
    by (simp add: parse_article_pair [OF s t ab] make_verb_id_def remove_spaces_def)
  note sl = scrape_level_single [OF pa]
  have h1: "scrape_level ?e (ascii ''beginner'') [ascii ''u''] empty_world
      = (fst (scrape_level ?e (ascii ''beginner'') [ascii ''u''] empty_world),
         snd (scrape_level ?e (ascii ''beginner'') [ascii ''u''] empty_world))"
    by simp
  have h2: "data_dir (snd (scrape_level ?e (ascii ''beginner'') [ascii ''u''] empty_world)) ?name
      = Some r"
    unfolding sl by (simp add: id)
  have h3: "data_dir empty_world ?name \<noteq> Some r"
    by (simp add: empty_world_def)
  from persisted_records_are_full [OF h1 h2 h3]
  have "r \<in> set (fst (scrape_level ?e (ascii ''beginner'') [ascii ''u''] empty_world))"
    by (elim conjE)
  with h2 h3 ki kt show ?thesis by blast
qed

text \<open>
  C7 as stated fails: the title \<open>middle dot, akeru\<close> splits into an empty part and
  \<open>akeru\<close>, the article is extracted, and the record is written with an empty
  intransitive kanji.
\<close>

theorem persisted_records_counterexample:
  "map_option (\<lambda>r. kanji (vp_intransitive r))
     (data_dir (snd (scrape_level
            (demo_env (demo_page [MIDDLE_DOT, 38283, 12369, 12427] []))
            (ascii ''beginner'') [ascii ''u''] empty_world))
         ([UNDERSCORE, 38283, 12369, 12427] @ ascii ''.json''))
   = Some []"
proof -
  let ?title = "[MIDDLE_DOT, 38283, 12369, 12427]"
  let ?p = "demo_page ?title []"
  let ?e = "demo_env ?p"
  have s: "web_page ?e (ascii ''u'') = Some ?p"
    by (simp add: demo_env_def)
  have t: "page_title ?p = Some ?title"
    by (simp add: demo_page_def)
  have ab: "parse_verb_pair_title ?title = Some ([], [38283, 12369, 12427])"
    by (simp add: parse_verb_pair_title_def separators_def before_bar_def is_bar_def
        py_strip_def py_isspace_def)
  obtain r w1 where pa: "parse_article ?e (ascii ''u'') (ascii ''beginner'') empty_world = (Some r, w1)"
    and id: "vp_id r = [UNDERSCORE, 38283, 12369, 12427]"
    and ki: "kanji (vp_intransitive r) = []"
    by (simp add: parse_article_pair [OF s t ab] make_verb_id_def remove_spaces_def)
  show ?thesis
    unfolding scrape_level_single [OF pa] by (simp add: id ki)
qed

lemma download_image_existing:
  assumes "images_dir w (image_filename e img_url verb_pair_id) \<noteq> None"
  shows "download_image e img_url verb_pair_id w
           = (Some (image_filename e img_url verb_pair_id), w)"
  using assms by (simp add: download_image_def)

lemma download_image_Some:
  assumes "download_image e img_url verb_pair_id w = (Some f, w1)"
  shows "f = image_filename e img_url verb_pair_id \<and> images_dir w1 f \<noteq> None"
  using assms
  by (auto simp: download_image_def Let_def split: if_splits option.splits)

text \<open>
  C8. The file name of an image is the record id, an underscore, the first eight
  characters of the hexadecimal MD5 digest of the URL, and the suffix of the URL's path,
  \<open>.jpg\<close> when the path has none. When a file of that name is in the image directory,
  \<open>download_image\<close> returns the name and leaves the world as it is: no request is sent
  and no file is written. So a second call after a successful one changes nothing.
\<close>

theorem download_image_idempotent:
  "image_filename e img_url verb_pair_id =
      verb_pair_id @ [UNDERSCORE] @ take 8 (md5_hex e img_url)
        @ (if url_suffix e img_url = [] then ascii ''.jpg'' else url_suffix e img_url)
   \<and> (images_dir w (image_filename e img_url verb_pair_id) \<noteq> None \<longrightarrow>
        download_image e img_url verb_pair_id w
          = (Some (image_filename e img_url verb_pair_id), w))
   \<and> (\<forall>f w1. download_image e img_url verb_pair_id w = (Some f, w1) \<longrightarrow>
        download_image e img_url verb_pair_id w1 = (Some f, w1))"
proof (intro conjI allI impI)
  show "image_filename e img_url verb_pair_id =
      verb_pair_id @ [UNDERSCORE] @ take 8 (md5_hex e img_url)
        @ (if url_suffix e img_url = [] then ascii ''.jpg'' else url_suffix e img_url)"
    by (simp add: image_filename_def Let_def)
next
  assume "images_dir w (image_filename e img_url verb_pair_id) \<noteq> None"
  then show "download_image e img_url verb_pair_id w
          = (Some (image_filename e img_url verb_pair_id), w)"
    by (rule download_image_existing)
next
  fix f w1
  assume "download_image e img_url verb_pair_id w = (Some f, w1)"
  from download_image_Some [OF this]
  have f: "f = image_filename e img_url verb_pair_id" and ex: "images_dir w1 f \<noteq> None"
    by blast+
  from ex show "download_image e img_url verb_pair_id w1 = (Some f, w1)"
    unfolding f by (rule download_image_existing)
qed

theorem download_image_idempotent_witness:
  "image_filename (demo_env (demo_page [] [])) (ascii ''http://x/a.png'') [38283, 12367]
     = [38283, 12367] @ ascii ''_01234567.jpg''
   \<and> images_dir
        (empty_world\<lparr>images_dir := [[38283, 12367] @ ascii ''_01234567.jpg'' \<mapsto> [1, 2, 3]]\<rparr>)
        (image_filename (demo_env (demo_page [] [])) (ascii ''http://x/a.png'') [38283, 12367])
       = Some [1, 2, 3]
   \<and> download_image (demo_env (demo_page [] [])) (ascii ''http://x/a.png'') [38283, 12367]
        (empty_world\<lparr>images_dir := [[38283, 12367] @ ascii ''_01234567.jpg'' \<mapsto> [1, 2, 3]]\<rparr>)
     = (Some ([38283, 12367] @ ascii ''_01234567.jpg''),
        empty_world\<lparr>images_dir := [[38283, 12367] @ ascii ''_01234567.jpg'' \<mapsto> [1, 2, 3]]\<rparr>)"
proof -
  let ?e = "demo_env (demo_page [] [])"
  let ?u = "ascii ''http://x/a.png''"
  let ?w = "empty_world\<lparr>images_dir := [[38283, 12367] @ ascii ''_01234567.jpg'' \<mapsto> [1, 2, 3]]\<rparr>"
  note th = download_image_idempotent [of ?e ?u "[38283, 12367]" ?w]
  have n: "image_filename ?e ?u [38283, 12367] = [38283, 12367] @ ascii ''_01234567.jpg''"
    using th by (simp add: demo_env_def ascii_def)
  have h: "images_dir ?w (image_filename ?e ?u [38283, 12367]) = Some [1, 2, 3]"
    unfolding n by simp
  then have "images_dir ?w (image_filename ?e ?u [38283, 12367]) \<noteq> None"
    by simp
  with th have "download_image ?e ?u [38283, 12367] ?w
      = (Some (image_filename ?e ?u [38283, 12367]), ?w)"
    by blast
  with n h show ?thesis by simp
qed

lemma answered_append: "k < length l \<Longrightarrow> answered ac (l @ l') k = answered ac l k"
  by (simp add: answered_def nth_append)

lemma raised_at_append: "k < length l \<Longrightarrow> raised_at ac (l @ l') k x = raised_at ac l k x"
  by (simp add: raised_at_def nth_append)

lemma sent_say: "sent (say m s) = sent s"
  by (simp add: say_def)

lemma io_specI:
  assumes "\<And>s a s'. m s = (Inr a, s') \<Longrightarrow>
             \<exists>new. sent s' = sent s @ new
               \<and> (\<forall>k. length (sent s) \<le> k \<and> k < length (sent s') \<longrightarrow> answered ac (sent s') k)"
    and "\<And>s x s'. m s = (Inl x, s') \<Longrightarrow>
             \<exists>new act. sent s' = sent s @ new @ [act]
               \<and> (\<forall>k. length (sent s) \<le> k \<and> k < length (sent s) + length new
                      \<longrightarrow> answered ac (sent s') k)
               \<and> raised_at ac (sent s') (length (sent s) + length new) x"
  shows "io_spec ac m"
  unfolding io_spec_def
proof
  fix s
  obtain res s' where ms: "m s = (res, s')" by (cases "m s")
  show "case m s of
          (Inr a, s') \<Rightarrow>
            (\<exists>new. sent s' = sent s @ new
               \<and> (\<forall>k. length (sent s) \<le> k \<and> k < length (sent s') \<longrightarrow> answered ac (sent s') k))
        | (Inl x, s') \<Rightarrow>
            (\<exists>new act. sent s' = sent s @ new @ [act]
               \<and> (\<forall>k. length (sent s) \<le> k \<and> k < length (sent s) + length new
                      \<longrightarrow> answered ac (sent s') k)
               \<and> raised_at ac (sent s') (length (sent s) + length new) x)"
  proof (cases res)
    case (Inl x)
    with ms assms(2) [of s x s'] show ?thesis by simp
  next
    case (Inr a)
    with ms assms(1) [of s a s'] show ?thesis by simp
  qed
qed

lemma io_spec_Inr:
  assumes "io_spec ac m" and "m s = (Inr a, s')"
  shows "\<exists>new. sent s' = sent s @ new
           \<and> (\<forall>k. length (sent s) \<le> k \<and> k < length (sent s') \<longrightarrow> answered ac (sent s') k)"
  using assms(1) [unfolded io_spec_def, rule_format, of s] assms(2) by simp

lemma io_spec_Inl:
  assumes "io_spec ac m" and "m s = (Inl x, s')"
  shows "\<exists>new act. sent s' = sent s @ new @ [act]
           \<and> (\<forall>k. length (sent s) \<le> k \<and> k < length (sent s) + length new
                  \<longrightarrow> answered ac (sent s') k)
           \<and> raised_at ac (sent s') (length (sent s) + length new) x"
  using assms(1) [unfolded io_spec_def, rule_format, of s] assms(2) by simp

lemma anki_request_cases:
  "anki_request ac act s =
     (case ac (length (sent s)) act of
        URLError \<Rightarrow> (Inl CannotConnect, s\<lparr>sent := sent s @ [act]\<rparr>)
      | Body r \<Rightarrow>
          if rb_error r \<noteq> [] then (Inl (AnkiConnectError (rb_error r)), s\<lparr>sent := sent s @ [act]\<rparr>)
          else (Inr r, s\<lparr>sent := sent s @ [act]\<rparr>))"
  by (simp add: anki_request_def Let_def)

lemma io_spec_anki_request: "io_spec ac (anki_request ac act)"
proof (rule io_specI)
  fix s a s'
  assume h: "anki_request ac act s = (Inr a, s')"
  then have s': "sent s' = sent s @ [act]"
    by (auto simp: anki_request_cases split: response.splits if_splits)
  from h have "answered ac (sent s @ [act]) (length (sent s))"
    by (auto simp: anki_request_cases answered_def split: response.splits if_splits)
  then have "\<forall>k. length (sent s) \<le> k \<and> k < length (sent s') \<longrightarrow> answered ac (sent s') k"
    unfolding s' by (auto simp: less_Suc_eq_le)
  with s' show "\<exists>new. sent s' = sent s @ new
      \<and> (\<forall>k. length (sent s) \<le> k \<and> k < length (sent s') \<longrightarrow> answered ac (sent s') k)"
    by blast
next
  fix s x s'
  assume h: "anki_request ac act s = (Inl x, s')"
  then have s': "sent s' = sent s @ [] @ [act]"
    by (auto simp: anki_request_cases split: response.splits if_splits)
  from h have "raised_at ac (sent s @ [act]) (length (sent s)) x"
    by (auto simp: anki_request_cases raised_at_def split: response.splits if_splits)
  then have "raised_at ac (sent s') (length (sent s) + length ([]::action list)) x"
    unfolding s' by simp
  with s' show "\<exists>new act. sent s' = sent s @ new @ [act]
      \<and> (\<forall>k. length (sent s) \<le> k \<and> k < length (sent s) + length new \<longrightarrow> answered ac (sent s') k)
      \<and> raised_at ac (sent s') (length (sent s) + length new) x"
    by (intro exI [of _ "[]"] exI [of _ act]) auto
qed

lemma io_spec_pure: "io_spec ac (\<lambda>s. (Inr a, s))"
  by (rule io_specI) auto

lemma io_spec_say: "io_spec ac (\<lambda>s. (Inr a, say msg s))"
  by (rule io_specI) (auto simp: sent_say)

lemma io_spec_after_say:
  assumes "io_spec ac m"
  shows "io_spec ac (\<lambda>s. m (say msg s))"
proof (rule io_specI)
  fix s a s'
  assume "m (say msg s) = (Inr a, s')"
  from io_spec_Inr [OF assms this]
  show "\<exists>new. sent s' = sent s @ new
      \<and> (\<forall>k. length (sent s) \<le> k \<and> k < length (sent s') \<longrightarrow> answered ac (sent s') k)"
    by (simp add: sent_say)
next
  fix s x s'
  assume "m (say msg s) = (Inl x, s')"
  from io_spec_Inl [OF assms this]
  show "\<exists>new act. sent s' = sent s @ new @ [act]
      \<and> (\<forall>k. length (sent s) \<le> k \<and> k < length (sent s) + length new \<longrightarrow> answered ac (sent s') k)
      \<and> raised_at ac (sent s') (length (sent s) + length new) x"
    by (simp add: sent_say)
qed

lemma io_spec_bind:
  assumes m: "io_spec ac m" and f: "\<And>a. io_spec ac (f a)"
  shows "io_spec ac (bind_io m f)"
proof (rule io_specI)
  fix s b s2
  assume h: "bind_io m f s = (Inr b, s2)"
  then obtain a s1 where ms: "m s = (Inr a, s1)" and fs: "f a s1 = (Inr b, s2)"
    by (auto simp: bind_io_def split: prod.splits sum.splits)
  from io_spec_Inr [OF m ms] obtain new1 where n1: "sent s1 = sent s @ new1"
    and a1: "\<forall>k. length (sent s) \<le> k \<and> k < length (sent s1) \<longrightarrow> answered ac (sent s1) k"
    by blast
  from io_spec_Inr [OF f fs] obtain new2 where n2: "sent s2 = sent s1 @ new2"
    and a2: "\<forall>k. length (sent s1) \<le> k \<and> k < length (sent s2) \<longrightarrow> answered ac (sent s2) k"
    by blast
  have "\<forall>k. length (sent s) \<le> k \<and> k < length (sent s2) \<longrightarrow> answered ac (sent s2) k"
  proof (intro allI impI)
    fix k assume k: "length (sent s) \<le> k \<and> k < length (sent s2)"
    show "answered ac (sent s2) k"
    proof (cases "k < length (sent s1)")
      case True
      with k a1 have "answered ac (sent s1) k" by simp
      with True show ?thesis unfolding n2 by (simp add: answered_append)
    next
      case False
      with k a2 show ?thesis by simp
    qed
  qed
  moreover have "sent s2 = sent s @ (new1 @ new2)"
    by (simp add: n1 n2)
  ultimately show "\<exists>new. sent s2 = sent s @ new
      \<and> (\<forall>k. length (sent s) \<le> k \<and> k < length (sent s2) \<longrightarrow> answered ac (sent s2) k)"
    by blast
next
  fix s x s2
  assume h: "bind_io m f s = (Inl x, s2)"
  show "\<exists>new act. sent s2 = sent s @ new @ [act]
      \<and> (\<forall>k. length (sent s) \<le> k \<and> k < length (sent s) + length new \<longrightarrow> answered ac (sent s2) k)
      \<and> raised_at ac (sent s2) (length (sent s) + length new) x"
  proof (cases "m s")
    case (Pair res s1)
    show ?thesis
    proof (cases res)
      case (Inl y)
      with Pair h have "m s = (Inl x, s2)"
        by (simp add: bind_io_def)
      from io_spec_Inl [OF m this] show ?thesis .
    next
      case (Inr a)
      with Pair have ms: "m s = (Inr a, s1)" by simp
      with h have fs: "f a s1 = (Inl x, s2)"
        by (simp add: bind_io_def)
      from io_spec_Inr [OF m ms] obtain new1 where n1: "sent s1 = sent s @ new1"
        and a1: "\<forall>k. length (sent s) \<le> k \<and> k < length (sent s1) \<longrightarrow> answered ac (sent s1) k"
        by blast
      from io_spec_Inl [OF f fs] obtain new2 act where n2: "sent s2 = sent s1 @ new2 @ [act]"
        and a2: "\<forall>k. length (sent s1) \<le> k \<and> k < length (sent s1) + length new2
                   \<longrightarrow> answered ac (sent s2) k"
        and r2: "raised_at ac (sent s2) (length (sent s1) + length new2) x"
        by blast
      have 1: "sent s2 = sent s @ (new1 @ new2) @ [act]"
        by (simp add: n1 n2)
      have 2: "\<forall>k. length (sent s) \<le> k \<and> k < length (sent s) + length (new1 @ new2)
                 \<longrightarrow> answered ac (sent s2) k"
      proof (intro allI impI)
        fix k assume k: "length (sent s) \<le> k \<and> k < length (sent s) + length (new1 @ new2)"
        show "answered ac (sent s2) k"
        proof (cases "k < length (sent s1)")
          case True
          with k a1 have "answered ac (sent s1) k" by simp
          with True show ?thesis unfolding n2 by (simp add: answered_append)
        next
          case False
          with k a2 n1 show ?thesis by simp
        qed
      qed
      have 3: "raised_at ac (sent s2) (length (sent s) + length (new1 @ new2)) x"
        using r2 by (simp add: n1 add.assoc)
      from 1 2 3 show ?thesis by blast
    qed
  qed
qed

lemma emitsI:
  assumes "\<And>s res s'. m s = (res, s') \<Longrightarrow> \<exists>new. sent s' = sent s @ new \<and> (\<forall>act \<in> set new. P act)"
  shows "emits P m"
  unfolding emits_def using assms by blast

lemma emitsD:
  assumes "emits P m" and "m s = (res, s')"
  shows "\<exists>new. sent s' = sent s @ new \<and> (\<forall>act \<in> set new. P act)"
  using assms unfolding emits_def by blast

lemma emits_anki_request: "P act \<Longrightarrow> emits P (anki_request ac act)"
  by (rule emitsI) (auto simp: anki_request_cases split: response.splits if_splits)

lemma emits_pure: "emits P (\<lambda>s. (Inr a, s))"
  by (rule emitsI) auto

lemma emits_say: "emits P (\<lambda>s. (Inr a, say msg s))"
  by (rule emitsI) (auto simp: sent_say)

lemma emits_bind:
  assumes m: "emits P m" and f: "\<And>a. emits P (f a)"
  shows "emits P (bind_io m f)"
proof (rule emitsI)
  fix s res s2
  assume h: "bind_io m f s = (res, s2)"
  obtain r1 s1 where ms: "m s = (r1, s1)" by (cases "m s")
  from emitsD [OF m ms] obtain new1 where n1: "sent s1 = sent s @ new1" "\<forall>act \<in> set new1. P act"
    by blast
  show "\<exists>new. sent s2 = sent s @ new \<and> (\<forall>act \<in> set new. P act)"
  proof (cases r1)
    case (Inl x)
    with ms h have "s2 = s1" by (simp add: bind_io_def)
    with n1 show ?thesis by blast
  next
    case (Inr a)
    with ms h have "f a s1 = (res, s2)" by (simp add: bind_io_def)
    from emitsD [OF f this] obtain new2 where n2: "sent s2 = sent s1 @ new2" "\<forall>act \<in> set new2. P act"
      by blast
    have "sent s2 = sent s @ (new1 @ new2)" using n1 n2 by simp
    moreover have "\<forall>act \<in> set (new1 @ new2). P act" using n1 n2 by auto
    ultimately show ?thesis by blast
  qed
qed

lemma emits_store_image:
  "(\<And>f d. P (StoreMediaFile f d)) \<Longrightarrow> emits P (store_image ac imgs filename)"
  unfolding store_image_def
  by (cases "imgs filename") (simp_all add: emits_pure emits_bind emits_anki_request)

lemma emits_image_field_of:
  "(\<And>f d. P (StoreMediaFile f d)) \<Longrightarrow> emits P (image_field_of ac imgs verb_data)"
  unfolding image_field_of_def
  by (cases "vp_images verb_data") (simp_all add: emits_pure emits_bind emits_store_image)

lemma note_fields_of_Image: "nf_Image (note_fields_of verb_data image_field) = image_field"
  by (simp add: note_fields_of_def)

lemma emits_note_tail:
  "emits (note_request verb_data)
     (case found of
        note_id # _ \<Rightarrow>
          bind_io (anki_request ac
                     (UpdateNoteFields note_id (note_fields_of verb_data image_field)))
            (\<lambda>_ s. (Inr False, say (Updated (vp_id verb_data)) s))
      | [] \<Rightarrow>
          bind_io (anki_request ac
                     (AddNote DECK_NAME MODEL_NAME (note_fields_of verb_data image_field)
                        [ascii ''level:'' @ vp_level verb_data, ascii ''verb-pair'',
                         ascii ''edewakaru'']))
            (\<lambda>_ s. (Inr True, say (Added (vp_id verb_data)) s)))"
  by (cases found)
     (simp_all add: emits_bind emits_anki_request emits_say note_fields_of_Image)

lemma emits_add_or_update_note:
  "emits (note_request verb_data) (add_or_update_note ac imgs verb_data)"
  unfolding add_or_update_note_def Let_def
  by (intro emits_bind emits_anki_request emits_image_field_of emits_note_tail) simp_all

lemma add_or_update_note_first_request:
  assumes "add_or_update_note ac imgs verb_data s = (res, s')"
  shows "\<exists>rest. sent s' = sent s @ FindNotes (find_query (vp_id verb_data)) # rest"
proof -
  let ?q = "FindNotes (find_query (vp_id verb_data))"
  obtain r1 s1 where a: "anki_request ac ?q s = (r1, s1)"
    by (cases "anki_request ac ?q s")
  then have s1: "sent s1 = sent s @ [?q]"
    by (auto simp: anki_request_cases split: response.splits if_splits)
  show ?thesis
  proof (cases r1)
    case (Inl x)
    with a assms have "s' = s1"
      by (simp add: add_or_update_note_def bind_io_def)
    with s1 show ?thesis by simp
  next
    case (Inr existing)
    define tail where "tail = bind_io (image_field_of ac imgs verb_data) (\<lambda>image_field.
       (case rb_notes existing of
          note_id # _ \<Rightarrow>
            bind_io (anki_request ac
                       (UpdateNoteFields note_id (note_fields_of verb_data image_field)))
              (\<lambda>_ s. (Inr False, say (Updated (vp_id verb_data)) s))
        | [] \<Rightarrow>
            bind_io (anki_request ac
                       (AddNote DECK_NAME MODEL_NAME (note_fields_of verb_data image_field)
                          [ascii ''level:'' @ vp_level verb_data, ascii ''verb-pair'',
                           ascii ''edewakaru'']))
              (\<lambda>_ s. (Inr True, say (Added (vp_id verb_data)) s))))"
    have "emits (note_request verb_data) tail"
      unfolding tail_def
      by (intro emits_bind emits_image_field_of emits_note_tail) simp_all
    moreover from Inr a assms have "tail s1 = (res, s')"
      by (simp add: add_or_update_note_def bind_io_def tail_def Let_def)
    ultimately obtain new where "sent s' = sent s1 @ new"
      using emitsD by blast
    with s1 show ?thesis by simp
  qed
qed

lemma format_practice_questions_eq:
  "format_practice_questions questions =
     py_join (ascii ''<br>'')
       (take 5 (if \<exists>q \<in> set questions. FULLWIDTH_LBRACKET \<in> set q \<or> LENTICULAR_OPEN \<in> set q
                then filter (\<lambda>q. FULLWIDTH_LBRACKET \<in> set q \<or> LENTICULAR_OPEN \<in> set q) questions
                else questions))"
proof -
  have hc: "has_choices = (\<lambda>q. FULLWIDTH_LBRACKET \<in> set q \<or> LENTICULAR_OPEN \<in> set q)"
    by (rule ext) (simp add: has_choices_def py_in_single)
  show ?thesis
  proof (cases "\<exists>q \<in> set questions. FULLWIDTH_LBRACKET \<in> set q \<or> LENTICULAR_OPEN \<in> set q")
    case True
    then have "filter (\<lambda>q. FULLWIDTH_LBRACKET \<in> set q \<or> LENTICULAR_OPEN \<in> set q) questions \<noteq> []"
      by (simp add: filter_empty_conv)
    with True show ?thesis
      by (simp add: format_practice_questions_def hc Let_def BR_def)
  next
    case False
    then have "filter (\<lambda>q. FULLWIDTH_LBRACKET \<in> set q \<or> LENTICULAR_OPEN \<in> set q) questions = []"
      by (simp add: filter_empty_conv)
    with False show ?thesis
      by (simp add: format_practice_questions_def hc Let_def BR_def)
  qed
qed

text \<open>
  C10. Every \<open>updateNoteFields\<close> and \<open>addNote\<close> request that \<open>add_or_update_note\<close> sends
  for a record carries, as PracticeQuestions, at most five questions joined by
  \<open><br>\<close>: the first five of those that contain a fullwidth left square bracket
  (U+FF3B) or U+3010 when there is one, else the first five questions; and, as
  Answers, the first five answers joined by \<open><br>\<close>.
\<close>

theorem synced_note_questions_and_answers:
  assumes "add_or_update_note ac imgs verb_data s = (res, s')"
    and "act \<in> set (drop (length (sent s)) (sent s'))"
    and "act = UpdateNoteFields note_id flds \<or> act = AddNote deck model flds tags"
  shows "nf_PracticeQuestions flds =
           py_join (ascii ''<br>'')
             (take 5 (if \<exists>q \<in> set (vp_practice_questions verb_data).
                           FULLWIDTH_LBRACKET \<in> set q \<or> LENTICULAR_OPEN \<in> set q
                      then filter (\<lambda>q. FULLWIDTH_LBRACKET \<in> set q \<or> LENTICULAR_OPEN \<in> set q)
                             (vp_practice_questions verb_data)
                      else vp_practice_questions verb_data))
       \<and> length (take 5 (if \<exists>q \<in> set (vp_practice_questions verb_data).
                           FULLWIDTH_LBRACKET \<in> set q \<or> LENTICULAR_OPEN \<in> set q
                      then filter (\<lambda>q. FULLWIDTH_LBRACKET \<in> set q \<or> LENTICULAR_OPEN \<in> set q)
                             (vp_practice_questions verb_data)
                      else vp_practice_questions verb_data)) \<le> 5
       \<and> nf_Answers flds = py_join (ascii ''<br>'') (take 5 (vp_answers verb_data))
       \<and> length (take 5 (vp_answers verb_data)) \<le> 5"
proof -
  from emitsD [OF emits_add_or_update_note assms(1)]
  obtain new where new: "sent s' = sent s @ new" "\<forall>a \<in> set new. note_request verb_data a"
    by blast
  from new(1) have "drop (length (sent s)) (sent s') = new" by simp
  with assms(2) new(2) have "note_request verb_data act" by simp
  with assms(3) have f: "flds = note_fields_of verb_data (nf_Image flds)" by auto
  have q: "nf_PracticeQuestions flds = format_practice_questions (vp_practice_questions verb_data)"
    by (subst f) (simp add: note_fields_of_def)
  have a: "nf_Answers flds = py_join (ascii ''<br>'') (take 5 (vp_answers verb_data))"
    by (subst f) (simp add: note_fields_of_def format_answers_def BR_def)
  show ?thesis
    unfolding q a format_practice_questions_eq by simp
qed

theorem synced_note_questions_and_answers_witness:
  "AddNote DECK_NAME MODEL_NAME
     (note_fields_of
        (demo_record [[97], [LENTICULAR_OPEN, 49], [98], [FULLWIDTH_LBRACKET, 50],
                      [LENTICULAR_OPEN, 51], [LENTICULAR_OPEN, 52], [LENTICULAR_OPEN, 53],
                      [LENTICULAR_OPEN, 54]]
                     [[97], [98], [99], [100], [101], [102]]) [])
     [ascii ''level:beginner'', ascii ''verb-pair'', ascii ''edewakaru'']
     \<in> set (sent (snd (add_or_update_note anki_up Map.empty
        (demo_record [[97], [LENTICULAR_OPEN, 49], [98], [FULLWIDTH_LBRACKET, 50],
                      [LENTICULAR_OPEN, 51], [LENTICULAR_OPEN, 52], [LENTICULAR_OPEN, 53],
                      [LENTICULAR_OPEN, 54]]
                     [[97], [98], [99], [100], [101], [102]]) fresh)))
   \<and> nf_PracticeQuestions
     (note_fields_of
        (demo_record [[97], [LENTICULAR_OPEN, 49], [98], [FULLWIDTH_LBRACKET, 50],
                      [LENTICULAR_OPEN, 51], [LENTICULAR_OPEN, 52], [LENTICULAR_OPEN, 53],
                      [LENTICULAR_OPEN, 54]]
                     [[97], [98], [99], [100], [101], [102]]) [])
     = [LENTICULAR_OPEN, 49] @ ascii ''<br>'' @ [FULLWIDTH_LBRACKET, 50] @ ascii ''<br>''
       @ [LENTICULAR_OPEN, 51] @ ascii ''<br>'' @ [LENTICULAR_OPEN, 52] @ ascii ''<br>''
       @ [LENTICULAR_OPEN, 53]
   \<and> nf_Answers
     (note_fields_of
        (demo_record [[97], [LENTICULAR_OPEN, 49], [98], [FULLWIDTH_LBRACKET, 50],
                      [LENTICULAR_OPEN, 51], [LENTICULAR_OPEN, 52], [LENTICULAR_OPEN, 53],
                      [LENTICULAR_OPEN, 54]]
                     [[97], [98], [99], [100], [101], [102]]) [])
     = [97] @ ascii ''<br>'' @ [98] @ ascii ''<br>'' @ [99] @ ascii ''<br>'' @ [100]
       @ ascii ''<br>'' @ [101]"
proof -
  let ?r = "demo_record [[97], [LENTICULAR_OPEN, 49], [98], [FULLWIDTH_LBRACKET, 50],
                      [LENTICULAR_OPEN, 51], [LENTICULAR_OPEN, 52], [LENTICULAR_OPEN, 53],
                      [LENTICULAR_OPEN, 54]]
                     [[97], [98], [99], [100], [101], [102]]"
  let ?act = "AddNote DECK_NAME MODEL_NAME (note_fields_of ?r [])
     [ascii ''level:beginner'', ascii ''verb-pair'', ascii ''edewakaru'']"
  have run: "add_or_update_note anki_up Map.empty ?r fresh
      = (Inr True, \<lparr>sent = [FindNotes (find_query (vp_id ?r)), ?act],
                    console = [Added (vp_id ?r)]\<rparr>)"
    by (simp add: add_or_update_note_def bind_io_def anki_request_def anki_up_def demo_body_def
        image_field_of_def demo_record_def fresh_def say_def Let_def ascii_def)
  have h1: "add_or_update_note anki_up Map.empty ?r fresh
      = (Inr True, snd (add_or_update_note anki_up Map.empty ?r fresh))"
    unfolding run by simp
  have h2: "?act \<in> set (drop (length (sent fresh))
                 (sent (snd (add_or_update_note anki_up Map.empty ?r fresh))))"
    unfolding run by (simp add: fresh_def)
  have h3: "?act = UpdateNoteFields 0 (note_fields_of ?r [])
      \<or> ?act = AddNote DECK_NAME MODEL_NAME (note_fields_of ?r [])
           [ascii ''level:beginner'', ascii ''verb-pair'', ascii ''edewakaru'']"
    by simp
  note th = synced_note_questions_and_answers [OF h1 h2 h3]
  have q: "vp_practice_questions ?r = [[97], [LENTICULAR_OPEN, 49], [98], [FULLWIDTH_LBRACKET, 50],
                      [LENTICULAR_OPEN, 51], [LENTICULAR_OPEN, 52], [LENTICULAR_OPEN, 53],
                      [LENTICULAR_OPEN, 54]]"
    and a: "vp_answers ?r = [[97], [98], [99], [100], [101], [102]]"
    by (simp_all add: demo_record_def)
  from th have 1: "nf_PracticeQuestions (note_fields_of ?r [])
     = [LENTICULAR_OPEN, 49] @ ascii ''<br>'' @ [FULLWIDTH_LBRACKET, 50] @ ascii ''<br>''
       @ [LENTICULAR_OPEN, 51] @ ascii ''<br>'' @ [LENTICULAR_OPEN, 52] @ ascii ''<br>''
       @ [LENTICULAR_OPEN, 53]"
    unfolding q a by simp
  from th have 2: "nf_Answers (note_fields_of ?r [])
     = [97] @ ascii ''<br>'' @ [98] @ ascii ''<br>'' @ [99] @ ascii ''<br>'' @ [100]
       @ ascii ''<br>'' @ [101]"
    unfolding q a by simp
  have 3: "?act \<in> set (sent (snd (add_or_update_note anki_up Map.empty ?r fresh)))"
    unfolding run by simp
  from 3 1 2 show ?thesis by (intro conjI)
qed

lemma io_spec_ensure_deck_exists: "io_spec ac (ensure_deck_exists ac)"
  unfolding ensure_deck_exists_def
  by (intro io_spec_bind io_spec_anki_request)
     (simp add: io_spec_bind io_spec_anki_request io_spec_say)

lemma io_spec_ensure_model_exists: "io_spec ac (ensure_model_exists ac)"
  unfolding ensure_model_exists_def
  by (intro io_spec_bind io_spec_anki_request)
     (simp add: io_spec_bind io_spec_anki_request io_spec_say)

lemma io_spec_store_image: "io_spec ac (store_image ac imgs filename)"
  unfolding store_image_def
  by (cases "imgs filename") (simp_all add: io_spec_pure io_spec_bind io_spec_anki_request)

lemma io_spec_image_field_of: "io_spec ac (image_field_of ac imgs verb_data)"
  unfolding image_field_of_def
  by (cases "vp_images verb_data") (simp_all add: io_spec_pure io_spec_bind io_spec_store_image)

lemma io_spec_note_tail:
  "io_spec ac
     (case found of
        note_id # _ \<Rightarrow>
          bind_io (anki_request ac
                     (UpdateNoteFields note_id (note_fields_of verb_data image_field)))
            (\<lambda>_ s. (Inr False, say (Updated (vp_id verb_data)) s))
      | [] \<Rightarrow>
          bind_io (anki_request ac
                     (AddNote DECK_NAME MODEL_NAME (note_fields_of verb_data image_field)
                        [ascii ''level:'' @ vp_level verb_data, ascii ''verb-pair'',
                         ascii ''edewakaru'']))
            (\<lambda>_ s. (Inr True, say (Added (vp_id verb_data)) s)))"
  by (cases found) (simp_all add: io_spec_bind io_spec_anki_request io_spec_say)

lemma io_spec_add_or_update_note: "io_spec ac (add_or_update_note ac imgs verb_data)"
  unfolding add_or_update_note_def Let_def
  by (intro io_spec_bind io_spec_anki_request io_spec_image_field_of io_spec_note_tail)

lemma sync_notes_Cons:
  "sync_notes ac imgs (verb_data # rest) added updated =
     bind_io (add_or_update_note ac imgs verb_data) (\<lambda>is_new.
       if is_new then sync_notes ac imgs rest (added + 1) updated
       else sync_notes ac imgs rest added (updated + 1))"
  by (rule ext) (simp add: bind_io_def split: prod.splits sum.splits)

lemma io_spec_sync_notes: "io_spec ac (sync_notes ac imgs json_files added updated)"
proof (induction json_files arbitrary: added updated)
  case Nil
  have "sync_notes ac imgs [] added updated = (\<lambda>s. (Inr (added, updated), s))"
    by (rule ext) simp
  then show ?case by (simp only: io_spec_pure)
next
  case (Cons verb_data rest)
  show ?case
    unfolding sync_notes_Cons
    by (intro io_spec_bind io_spec_add_or_update_note) (simp add: Cons.IH)
qed

text \<open>What \<open>sync_all_verb_pairs\<close> does behind the connection check.\<close>

lemma sync_all_after_check:
  assumes "ac (length (sent s)) Version = Body r" and "rb_error r = []"
  shows "sync_all_verb_pairs ac imgs json_files s =
     bind_io (ensure_deck_exists ac) (\<lambda>_.
     bind_io (ensure_model_exists ac) (\<lambda>_.
     bind_io (\<lambda>s. sync_notes ac imgs json_files 0 0 (say (Syncing (length json_files)) s))
       (\<lambda>(added, updated) s. (Inr (), say (SyncComplete added updated) s))))
     (say Connected (s\<lparr>sent := sent s @ [Version]\<rparr>))"
  using assms
  by (simp add: sync_all_verb_pairs_def check_anki_connection_def anki_request_cases)

lemma sync_all_check_failed:
  assumes "ac (length (sent s)) Version = URLError"
  shows "sync_all_verb_pairs ac imgs json_files s =
     (Inr (), say (ErrorDiagnostic CannotConnect) (s\<lparr>sent := sent s @ [Version]\<rparr>))"
  using assms
  by (simp add: sync_all_verb_pairs_def check_anki_connection_def anki_request_cases)

lemma io_spec_sync_body:
  "io_spec ac
     (bind_io (ensure_deck_exists ac) (\<lambda>_.
      bind_io (ensure_model_exists ac) (\<lambda>_.
      bind_io (\<lambda>s. sync_notes ac imgs json_files 0 0 (say (Syncing (length json_files)) s))
        (\<lambda>(added, updated) s. (Inr (), say (SyncComplete added updated) s)))))"
  by (intro io_spec_bind io_spec_ensure_deck_exists io_spec_ensure_model_exists
        io_spec_after_say io_spec_sync_notes)
     (simp add: io_spec_say split: prod.splits)

lemma scrape_articles_skip:
  assumes "web_page e url = None"
  shows "scrape_articles e level (url # urls) results w
           = scrape_articles e level urls results (w\<lparr>requests := requests w @ [url]\<rparr>)"
  using assms by (simp add: parse_article_no_page)

lemma download_image_failed:
  assumes "web_image e src = None"
    and "images_dir w (image_filename e src verb_id) = None"
  shows "download_image e src verb_id w = (None, w\<lparr>requests := requests w @ [src]\<rparr>)"
  using assms by (simp add: download_image_def Let_def)

lemma download_images_skip:
  assumes "web_image e src = None"
    and "images_dir w (image_filename e src verb_id) = None"
    and "(src \<noteq> [] \<and> py_in (ascii ''resize.blogsys.jp'') src)
           \<or> py_in (ascii ''livedoor.blogimg.jp'') src"
  shows "download_images e verb_id ((src, alt) # rest) images w
           = download_images e verb_id rest images (w\<lparr>requests := requests w @ [src]\<rparr>)"
  using assms(3) by (auto simp: download_image_failed [OF assms(1,2)])

lemma sync_all_outcome:
  assumes "answered ac (sent s @ [Version]) (length (sent s))"
  shows "case sync_all_verb_pairs ac imgs json_files s of
           (Inr u, s') \<Rightarrow>
             (\<forall>k. length (sent s) \<le> k \<and> k < length (sent s') \<longrightarrow> answered ac (sent s') k)
         | (Inl x, s') \<Rightarrow>
             length (sent s) + 1 < length (sent s')
             \<and> raised_at ac (sent s') (length (sent s') - 1) x
             \<and> (\<forall>k. length (sent s) \<le> k \<and> k < length (sent s') - 1
                    \<longrightarrow> answered ac (sent s') k)"
proof -
  from assms obtain r where r: "ac (length (sent s)) Version = Body r" "rb_error r = []"
    by (auto simp: answered_def split: response.splits)
  define s0 where "s0 = say Connected (s\<lparr>sent := sent s @ [Version]\<rparr>)"
  have s0: "sent s0 = sent s @ [Version]"
    by (simp add: s0_def sent_say)
  define body where "body =
     bind_io (ensure_deck_exists ac) (\<lambda>_.
     bind_io (ensure_model_exists ac) (\<lambda>_.
     bind_io (\<lambda>s. sync_notes ac imgs json_files 0 0 (say (Syncing (length json_files)) s))
       (\<lambda>(added, updated) s. (Inr (), say (SyncComplete added updated) s))))"
  have spec: "io_spec ac body"
    unfolding body_def by (rule io_spec_sync_body)
  have run: "sync_all_verb_pairs ac imgs json_files s = body s0"
    unfolding body_def s0_def using r by (rule sync_all_after_check)
  obtain res s' where b: "body s0 = (res, s')" by (cases "body s0")
  have first: "\<And>l. answered ac ((sent s @ [Version]) @ l) (length (sent s))"
    using assms by (simp add: answered_def nth_append)
  show ?thesis
  proof (cases res)
    case (Inr u)
    with b have "body s0 = (Inr u, s')" by simp
    from io_spec_Inr [OF spec this] obtain new where n: "sent s' = sent s0 @ new"
      and a: "\<forall>k. length (sent s0) \<le> k \<and> k < length (sent s') \<longrightarrow> answered ac (sent s') k"
      by blast
    have "\<forall>k. length (sent s) \<le> k \<and> k < length (sent s') \<longrightarrow> answered ac (sent s') k"
    proof (intro allI impI)
      fix k assume k: "length (sent s) \<le> k \<and> k < length (sent s')"
      show "answered ac (sent s') k"
      proof (cases "k = length (sent s)")
        case True
        then show ?thesis unfolding n s0 using first by simp
      next
        case False
        with k have "length (sent s0) \<le> k \<and> k < length (sent s')" by (simp add: s0)
        with a show ?thesis by blast
      qed
    qed
    with Inr b show ?thesis by (simp add: run)
  next
    case (Inl x)
    with b have "body s0 = (Inl x, s')" by simp
    from io_spec_Inl [OF spec this] obtain new act where n: "sent s' = sent s0 @ new @ [act]"
      and a: "\<forall>k. length (sent s0) \<le> k \<and> k < length (sent s0) + length new
                \<longrightarrow> answered ac (sent s') k"
      and ra: "raised_at ac (sent s') (length (sent s0) + length new) x"
      by blast
    have len: "length (sent s') - 1 = length (sent s0) + length new"
      by (simp add: n)
    have 1: "length (sent s) + 1 < length (sent s')"
      by (simp add: n s0)
    have 2: "raised_at ac (sent s') (length (sent s') - 1) x"
      using ra by (simp only: len)
    have 3: "\<forall>k. length (sent s) \<le> k \<and> k < length (sent s') - 1 \<longrightarrow> answered ac (sent s') k"
    proof (intro allI impI)
      fix k assume k: "length (sent s) \<le> k \<and> k < length (sent s') - 1"
      show "answered ac (sent s') k"
      proof (cases "k = length (sent s)")
        case True
        have "sent s' = (sent s @ [Version]) @ (new @ [act])" by (simp add: n s0)
        then show ?thesis using first True by simp
      next
        case False
        with k len have "length (sent s0) \<le> k \<and> k < length (sent s0) + length new"
          unfolding s0 by simp
        with a show ?thesis by blast
      qed
    qed
    from 1 2 3 Inl b show ?thesis by (simp add: run)
  qed
qed

lemma sync_all_later_failure:
  assumes chk: "answered ac (sent s @ [Version]) (length (sent s))"
    and k: "length (sent s) < k"
      "k < length (sent (snd (sync_all_verb_pairs ac imgs json_files s)))"
    and down: "ac k (sent (snd (sync_all_verb_pairs ac imgs json_files s)) ! k) = URLError"
  shows "fst (sync_all_verb_pairs ac imgs json_files s) = Inl CannotConnect
       \<and> k = length (sent (snd (sync_all_verb_pairs ac imgs json_files s))) - 1"
proof -
  obtain res s' where run: "sync_all_verb_pairs ac imgs json_files s = (res, s')"
    by (cases "sync_all_verb_pairs ac imgs json_files s")
  from down have na: "\<not> answered ac (sent s') k"
    by (simp add: run answered_def)
  note out = sync_all_outcome [OF chk, of imgs json_files, unfolded run]
  show ?thesis
  proof (cases res)
    case (Inr u)
    with out k na show ?thesis by (auto simp: run)
  next
    case (Inl x)
    with out have ra: "raised_at ac (sent s') (length (sent s') - 1) x"
      and a: "\<forall>k. length (sent s) \<le> k \<and> k < length (sent s') - 1 \<longrightarrow> answered ac (sent s') k"
      by simp_all
    from a na have "\<not> (length (sent s) \<le> k \<and> k < length (sent s') - 1)"
      by blast
    moreover from k have "length (sent s) < k" "k < length (sent s')"
      by (simp_all add: run)
    ultimately have kk: "k = length (sent s') - 1"
      by linarith
    with ra down have "x = CannotConnect"
      by (simp add: raised_at_def run)
    with Inl kk show ?thesis by (simp add: run)
  qed
qed

lemma sync_run_store_lost:
  "sync_all_verb_pairs (anki_up_until 3) Map.empty
     [demo_record [] [], demo_record [] []] fresh
   = (Inl CannotConnect,
      \<lparr>sent = [Version, DeckNames, ModelNames, FindNotes (find_query (vp_id (demo_record [] [])))],
       console = [Connected, DeckExists, ModelExists, Syncing 2]\<rparr>)"
  by (simp add: sync_all_verb_pairs_def check_anki_connection_def ensure_deck_exists_def
      ensure_model_exists_def add_or_update_note_def bind_io_def anki_request_def
      anki_up_until_def demo_body_def fresh_def say_def Let_def)

end
